theory Spec2Isabelle
  imports Main "HOL-Library.AList" "HOL-Library.Char_ord" "HOL-Library.List_Lexorder"
    "HOL-Library.Multiset"
begin

section \<open>Values, events and dictionaries\<close>

text \<open>
  The fetcher of \<^verbatim>\<open>clean_fetch.py\<close> reads two fields of every event it receives,
  \<^verbatim>\<open>service_request_id\<close> and \<^verbatim>\<open>requested_datetime\<close>. A field value is modelled as a
  JSON scalar: \<^verbatim>\<open>null\<close> (Python \<^verbatim>\<open>None\<close>), a string or an integer. Booleans, floats and
  nested values are outside the model; the remaining payload is passed through untouched.
\<close>

datatype jval = JNull | JStr (str_of: string) | JNum (num_of: int)

text \<open>
  A string is a sequence of characters with code points below 256 (a \<open>char\<close> is its
  code point); strings are compared code point by code point, as Python compares them.
  An event is a parsed JSON object: the items of a Python \<^verbatim>\<open>dict\<close>.
\<close>

type_synonym event = "(string \<times> jval) list"

text \<open>\<^verbatim>\<open>event.get(k)\<close> is \<^verbatim>\<open>None\<close> for an absent key, \<^verbatim>\<open>event.get(k, d)\<close> is \<^verbatim>\<open>d\<close>.\<close>

definition event_get :: "event \<Rightarrow> string \<Rightarrow> jval" where
  "event_get e k = (case map_of e k of None \<Rightarrow> JNull | Some v \<Rightarrow> v)"

definition event_get_default :: "event \<Rightarrow> string \<Rightarrow> jval \<Rightarrow> jval" where
  "event_get_default e k d = (case map_of e k of None \<Rightarrow> d | Some v \<Rightarrow> v)"

text \<open>Python truthiness of a field value (\<^verbatim>\<open>if event_id:\<close>).\<close>

fun truthy :: "jval \<Rightarrow> bool" where
  "truthy JNull = False"
| "truthy (JStr s) = (s \<noteq> [])"
| "truthy (JNum n) = (n \<noteq> 0)"

text \<open>
  A Python \<^verbatim>\<open>dict\<close> keeps its items in insertion order, one item per key. The assignment
  \<^verbatim>\<open>d[k] = v\<close> replaces the value of an existing key in place and appends a new key at
  the end.
\<close>

definition dict_set :: "'k \<Rightarrow> 'v \<Rightarrow> ('k \<times> 'v) list \<Rightarrow> ('k \<times> 'v) list" where
  "dict_set k v d = AList.update k v d"

text \<open>\<^verbatim>\<open>self.all_events\<close>: the record store, keyed by \<^verbatim>\<open>service_request_id\<close>.\<close>

type_synonym store = "(jval \<times> event) list"

text \<open>A run of assignments \<^verbatim>\<open>self.all_events[k] = event\<close>, in program order.\<close>

definition merge_all :: "(jval \<times> event) list \<Rightarrow> store \<Rightarrow> store" where
  "merge_all kvs st = foldl (\<lambda>d (k, v). dict_set k v d) st kvs"

text \<open>The exceptions of Python that the modelled code can raise.\<close>

datatype error = ValueError | TypeError | OverflowError

section \<open>Calendar dates\<close>

text \<open>
  A \<^verbatim>\<open>datetime.date\<close> is represented by its proleptic Gregorian ordinal
  (\<^verbatim>\<open>date.toordinal()\<close>): \<^verbatim>\<open>date.min\<close> = 0001-01-01 is day 1 and
  \<^verbatim>\<open>date.max\<close> = 9999-12-31 is day 3652059. Comparison of dates is comparison of
  ordinals; adding a \<^verbatim>\<open>timedelta(days=n)\<close> adds \<open>n\<close> and raises
  \<^verbatim>\<open>OverflowError\<close> when the result leaves the range of the type.
\<close>

type_synonym date = int

definition date_min :: date where
  "date_min = 1"

definition date_max :: date where
  "date_max = 3652059"

definition valid_date :: "date \<Rightarrow> bool" where
  "valid_date d = (date_min \<le> d \<and> d \<le> date_max)"

definition date_add :: "date \<Rightarrow> int \<Rightarrow> error + date" where
  "date_add d n = (if valid_date (d + n) then Inr (d + n) else Inl OverflowError)"

definition is_digit :: "char \<Rightarrow> bool" where
  "is_digit c = (CHR ''0'' \<le> c \<and> c \<le> CHR ''9'')"

definition digit_val :: "char \<Rightarrow> nat" where
  "digit_val c = of_char c - 48"

definition is_leap :: "int \<Rightarrow> bool" where
  "is_leap y = (y mod 4 = 0 \<and> (y mod 100 \<noteq> 0 \<or> y mod 400 = 0))"

definition days_in_month :: "int \<Rightarrow> int \<Rightarrow> int" where
  "days_in_month y m =
     (if m = 2 then (if is_leap y then 29 else 28)
      else if m = 4 \<or> m = 6 \<or> m = 9 \<or> m = 11 then 30 else 31)"

definition days_before_year :: "int \<Rightarrow> int" where
  "days_before_year y = (y - 1) * 365 + (y - 1) div 4 - (y - 1) div 100 + (y - 1) div 400"

definition days_before_month :: "int \<Rightarrow> int \<Rightarrow> int" where
  "days_before_month y m = sum_list (map (days_in_month y) [1..m - 1])"

definition ymd2ord :: "int \<Rightarrow> int \<Rightarrow> int \<Rightarrow> date" where
  "ymd2ord y m d = days_before_year y + days_before_month y m + d"

definition number_of :: "string \<Rightarrow> int" where
  "number_of cs = int (foldl (\<lambda>n c. 10 * n + digit_val c) 0 cs)"

text \<open>
  \<^verbatim>\<open>date.fromisoformat\<close>, as CPython 3.11 computes it. The string is read as its UTF-8
  bytes and has to be 7, 8 or 10 bytes long. After four digits for the year, a calendar
  date \<^verbatim>\<open>YYYY-MM-DD\<close> or \<^verbatim>\<open>YYYYMMDD\<close> or an ISO week date \<^verbatim>\<open>YYYY-Www-D\<close>,
  \<^verbatim>\<open>YYYYWwwD\<close>, \<^verbatim>\<open>YYYY-Www\<close> or \<^verbatim>\<open>YYYYWww\<close> is read; a read past the end of the
  bytes meets the terminating zero byte, and bytes left over after the date are
  ignored. The date found has to lie in the range of \<^verbatim>\<open>date\<close>. Every failure is a
  \<^verbatim>\<open>ValueError\<close>.
\<close>

definition utf8 :: "string \<Rightarrow> string" where
  "utf8 s =
     concat (map (\<lambda>c. if (of_char c :: nat) < 128 then [c]
                       else [char_of (192 + (of_char c :: nat) div 64),
                             char_of (128 + (of_char c :: nat) mod 64)]) s)"

definition byte_at :: "string \<Rightarrow> nat \<Rightarrow> char" where
  "byte_at bs i = (if i < length bs then bs ! i else CHR 0x00)"

definition parse_digits :: "string \<Rightarrow> nat \<Rightarrow> nat \<Rightarrow> int option" where
  "parse_digits bs pos n =
     (let ds = map (byte_at bs) [pos..<pos + n]
      in if list_all is_digit ds then Some (number_of ds) else None)"

definition new_date :: "int \<Rightarrow> int \<Rightarrow> int \<Rightarrow> error + date" where
  "new_date y m d =
     (if 1 \<le> y \<and> y \<le> 9999 \<and> 1 \<le> m \<and> m \<le> 12 \<and> 1 \<le> d \<and> d \<le> days_in_month y m
      then Inr (ymd2ord y m d) else Inl ValueError)"

definition iso_week1_monday :: "int \<Rightarrow> int" where
  "iso_week1_monday y =
     (let first_day = ymd2ord y 1 1;
          first_weekday = (first_day + 6) mod 7;
          week1_monday = first_day - first_weekday
      in if first_weekday > 3 then week1_monday + 7 else week1_monday)"

definition iso_to_date :: "int \<Rightarrow> int \<Rightarrow> int \<Rightarrow> error + date" where
  "iso_to_date iso_year iso_week iso_day =
     (let first_weekday = (ymd2ord iso_year 1 1 + 6) mod 7;
          long_year = (first_weekday = 3 \<or> (first_weekday = 2 \<and> is_leap iso_year))
      in if iso_week \<le> 0 \<or> (53 \<le> iso_week \<and> \<not> (iso_week = 53 \<and> long_year)) then Inl ValueError
         else if iso_day \<le> 0 \<or> 8 \<le> iso_day then Inl ValueError
         else
           (let ordinal = iso_week1_monday iso_year + (iso_week - 1) * 7 + iso_day - 1
            in if valid_date ordinal then Inr ordinal else Inl ValueError))"

definition fromisoformat :: "string \<Rightarrow> error + date" where
  "fromisoformat s =
     (let bs = utf8 s; len = length bs in
      if len \<noteq> 7 \<and> len \<noteq> 8 \<and> len \<noteq> 10 then Inl ValueError
      else
        (case parse_digits bs 0 4 of
           None \<Rightarrow> Inl ValueError
         | Some year \<Rightarrow>
             (let uses_separator = (byte_at bs 4 = CHR ''-'');
                  p = (if uses_separator then 5 else 4)
              in if byte_at bs p = CHR ''W'' then
                   (case parse_digits bs (p + 1) 2 of
                      None \<Rightarrow> Inl ValueError
                    | Some iso_week \<Rightarrow>
                        if p + 3 < len then
                          (if uses_separator \<and> byte_at bs (p + 3) \<noteq> CHR ''-'' then Inl ValueError
                           else
                             (case parse_digits bs (if uses_separator then p + 4 else p + 3) 1 of
                                None \<Rightarrow> Inl ValueError
                              | Some iso_day \<Rightarrow> iso_to_date year iso_week iso_day))
                        else iso_to_date year iso_week 1)
                 else
                   (case parse_digits bs p 2 of
                      None \<Rightarrow> Inl ValueError
                    | Some month \<Rightarrow>
                        if uses_separator \<and> byte_at bs (p + 2) \<noteq> CHR ''-'' then Inl ValueError
                        else
                          (case parse_digits bs (if uses_separator then p + 3 else p + 2) 2 of
                             None \<Rightarrow> Inl ValueError
                           | Some day \<Rightarrow> new_date year month day)))))"

section \<open>The fetcher and its environment\<close>

text \<open>
  The two requests the fetcher sends: a page of the date-range query
  (\<^verbatim>\<open>GET /requests.json?start_date&end_date&extensions=true&page\<close>) and a lookup by
  identifier (\<^verbatim>\<open>GET /requests/{id}.json\<close>).
\<close>

datatype request = PageReq date date nat | IdReq string

text \<open>
  What \<^verbatim>\<open>client.get\<close>, \<^verbatim>\<open>raise_for_status\<close> and \<^verbatim>\<open>response.json\<close> together
  deliver: a JSON array of events, an error status (\<^verbatim>\<open>HTTPStatusError\<close> with that
  status code), or any other exception (transport failure, timeout, undecodable body).
\<close>

datatype response = Ok "event list" | HttpError nat | Failure

text \<open>
  The effects a run can have on the outside world, in the order they happen: an HTTP
  request, or a pause of the process (\<^verbatim>\<open>time.sleep\<close>).
\<close>

datatype effect = Get request | Sleep

text \<open>
  The remote service is any function from the effects so far and the request to a
  response, so its answers may depend on everything that happened before.
\<close>

type_synonym server = "effect list \<Rightarrow> request \<Rightarrow> response"

text \<open>The warning lines printed, \<^verbatim>\<open>Error on page {page}\<close> and \<^verbatim>\<open>Error fetching {id}\<close>.\<close>

datatype warning = ErrorOnPage nat | ErrorFetching string

text \<open>
  The state of a \<^verbatim>\<open>CleanFetcher\<close>: its fields, the effects it has had and the
  warnings it has printed. The two durations in \<^verbatim>\<open>stats\<close> are wall-clock readings
  and are left out, as are the progress lines.
\<close>

record fetcher =
  start_date :: date
  end_date :: date
  all_events :: store
  date_fetch_count :: nat
  id_fetch_count :: nat
  total_events :: nat
  effects :: "effect list"
  console :: "warning list"

definition CleanFetcher_init :: "string \<Rightarrow> string \<Rightarrow> error + fetcher" where
  "CleanFetcher_init start_s end_s =
     (case fromisoformat start_s of
        Inl err \<Rightarrow> Inl err
      | Inr sd \<Rightarrow>
          (case fromisoformat end_s of
             Inl err \<Rightarrow> Inl err
           | Inr ed \<Rightarrow>
               Inr \<lparr>start_date = sd, end_date = ed, all_events = [],
                    date_fetch_count = 0, id_fetch_count = 0, total_events = 0,
                    effects = [], console = []\<rparr>))"

definition client_get :: "server \<Rightarrow> request \<Rightarrow> fetcher \<Rightarrow> response \<times> fetcher" where
  "client_get srv req f = (srv (effects f) req, f\<lparr>effects := effects f @ [Get req]\<rparr>)"

section \<open>Phase 1: the date-based sweep\<close>

text \<open>
  The \<^verbatim>\<open>while True\<close> loop of \<^verbatim>\<open>fetch_by_date_range\<close>. It need not end (a service
  that answers every page with 100 items keeps it running), so the result is an option
  and \<open>None\<close> stands for a loop that never returns.
\<close>

partial_function (option) fetch_pages ::
  "server \<Rightarrow> date \<Rightarrow> date \<Rightarrow> nat \<Rightarrow> event list \<Rightarrow> fetcher \<Rightarrow> (event list \<times> fetcher) option"
where
  "fetch_pages srv start end page events f =
     (case client_get srv (PageReq start end page) f of
        (Ok page_events, f1) \<Rightarrow>
          if page_events = [] then Some (events, f1)
          else if length page_events < 100 then Some (events @ page_events, f1)
          else fetch_pages srv start end (page + 1) (events @ page_events) f1
      | (HttpError code, f1) \<Rightarrow> Some (events, f1\<lparr>console := console f1 @ [ErrorOnPage page]\<rparr>)
      | (Failure, f1) \<Rightarrow> Some (events, f1\<lparr>console := console f1 @ [ErrorOnPage page]\<rparr>))"

definition fetch_by_date_range ::
  "server \<Rightarrow> date \<Rightarrow> date \<Rightarrow> fetcher \<Rightarrow> (event list \<times> fetcher) option" where
  "fetch_by_date_range srv start end f = fetch_pages srv start end 1 [] f"

text \<open>The window plan: the \<^verbatim>\<open>while current <= self.end_date\<close> loop.\<close>

function plan_windows :: "date \<Rightarrow> date \<Rightarrow> (date \<times> date) list \<Rightarrow> error + (date \<times> date) list" where
  "plan_windows current end_d windows =
     (if current \<le> end_d then
        (case date_add current (7 - 1) of
           Inl err \<Rightarrow> Inl err
         | Inr c6 \<Rightarrow>
             (let window_end = min c6 end_d in
              case date_add window_end 1 of
                Inl err \<Rightarrow> Inl err
              | Inr nxt \<Rightarrow> plan_windows nxt end_d (windows @ [(current, window_end)])))
      else Inr windows)"
  by pat_completeness auto
termination
  by (relation "measure (\<lambda>(current, end_d, windows). nat (end_d + 1 - current))")
     (auto simp: date_add_def split: if_splits)

text \<open>Storing a window's events: only an event with a truthy identifier is kept.\<close>

fun store_events :: "event list \<Rightarrow> store \<Rightarrow> store" where
  "store_events [] st = st"
| "store_events (event # rest) st =
     (let event_id = event_get event ''service_request_id''
      in store_events rest (if truthy event_id then dict_set event_id event st else st))"

fun fetch_windows :: "server \<Rightarrow> (date \<times> date) list \<Rightarrow> fetcher \<Rightarrow> fetcher option" where
  "fetch_windows srv [] f = Some f"
| "fetch_windows srv ((start, end_d) # rest) f =
     (case fetch_by_date_range srv start end_d f of
        None \<Rightarrow> None
      | Some (events, f1) \<Rightarrow>
          fetch_windows srv rest (f1\<lparr>all_events := store_events events (all_events f1)\<rparr>))"

definition phase1_date_based_fetch :: "server \<Rightarrow> fetcher \<Rightarrow> (error + fetcher) option" where
  "phase1_date_based_fetch srv f =
     (case plan_windows (start_date f) (end_date f) [] of
        Inl err \<Rightarrow> Some (Inl err)
      | Inr windows \<Rightarrow>
          (case fetch_windows srv windows f of
             None \<Rightarrow> None
           | Some f1 \<Rightarrow> Some (Inr (f1\<lparr>date_fetch_count := length (all_events f1)\<rparr>))))"

section \<open>Gap analysis\<close>

text \<open>\<^verbatim>\<open>s.split("-")\<close>: the pieces of \<open>s\<close> between its dashes; never an empty list.\<close>

fun split_dash :: "string \<Rightarrow> string list" where
  "split_dash [] = [[]]"
| "split_dash (c # cs) =
     (if c = CHR ''-'' then [] # split_dash cs
      else (c # hd (split_dash cs)) # tl (split_dash cs))"

text \<open>
  \<^verbatim>\<open>int(s)\<close> on a string, as CPython 3.11 computes it. Whitespace around the literal
  is dropped: the ASCII characters tab, line feed, vertical tab, form feed, carriage
  return and space, and of the characters from 127 on those that Unicode calls
  whitespace (U+0085 and U+00A0 below 256); the separators U+001C to U+001F are not
  dropped. One sign is allowed, the digits may be grouped by single underscores, and a
  literal of more than 4300 digits is refused (\<^verbatim>\<open>sys.int_max_str_digits\<close>). Every
  failure is a \<^verbatim>\<open>ValueError\<close>.
\<close>

definition is_space :: "char \<Rightarrow> bool" where
  "is_space c =
     (c \<in> set [CHR 0x09, CHR 0x0A, CHR 0x0B, CHR 0x0C, CHR 0x0D, CHR 0x20, CHR 0x85, CHR 0xA0])"

definition strip :: "string \<Rightarrow> string" where
  "strip s = rev (dropWhile is_space (rev (dropWhile is_space s)))"

fun digits_value :: "string \<Rightarrow> nat \<Rightarrow> nat option" where
  "digits_value [] acc = Some acc"
| "digits_value (c # cs) acc =
     (if is_digit c then digits_value cs (10 * acc + digit_val c)
      else if c = CHR ''_'' then
        (case cs of
           [] \<Rightarrow> None
         | d # ds \<Rightarrow> if is_digit d then digits_value ds (10 * acc + digit_val d) else None)
      else None)"

definition int_max_str_digits :: nat where
  "int_max_str_digits = 4300"

definition nat_literal :: "string \<Rightarrow> nat option" where
  "nat_literal s =
     (case s of
        [] \<Rightarrow> None
      | c # cs \<Rightarrow>
          if is_digit c \<and> length (filter is_digit s) \<le> int_max_str_digits
          then digits_value cs (digit_val c) else None)"

definition py_int :: "string \<Rightarrow> error + int" where
  "py_int s =
     (case strip s of
        [] \<Rightarrow> Inl ValueError
      | c # cs \<Rightarrow>
          if c = CHR ''+'' then
            (case nat_literal cs of None \<Rightarrow> Inl ValueError | Some n \<Rightarrow> Inr (int n))
          else if c = CHR ''-'' then
            (case nat_literal cs of None \<Rightarrow> Inl ValueError | Some n \<Rightarrow> Inr (- int n))
          else
            (case nat_literal (c # cs) of None \<Rightarrow> Inl ValueError | Some n \<Rightarrow> Inr (int n)))"

text \<open>
  \<^verbatim>\<open>ids_by_year\<close> is a \<^verbatim>\<open>defaultdict(set)\<close>: reading a year that has no entry yet
  gives the empty set. \<^verbatim>\<open>ids_by_year[year].add(id_num)\<close> adds to the set of the year.
\<close>

definition ids_of_year :: "(string \<times> int set) list \<Rightarrow> string \<Rightarrow> int set" where
  "ids_of_year g year = (case map_of g year of None \<Rightarrow> {} | Some ids \<Rightarrow> ids)"

definition add_id :: "string \<Rightarrow> int \<Rightarrow> (string \<times> int set) list \<Rightarrow> (string \<times> int set) list" where
  "add_id year id_num g = dict_set year (insert id_num (ids_of_year g year)) g"

text \<open>
  The first loop of \<^verbatim>\<open>analyze_missing_ids\<close>, over the keys of the store. The test
  \<^verbatim>\<open>"-" in event_id\<close> raises \<^verbatim>\<open>TypeError\<close> on a key that is not a string, and
  \<^verbatim>\<open>int(parts[0])\<close> raises \<^verbatim>\<open>ValueError\<close> on a prefix that is not a number.
\<close>

fun group_ids :: "jval list \<Rightarrow> (string \<times> int set) list \<Rightarrow> error + (string \<times> int set) list" where
  "group_ids [] g = Inr g"
| "group_ids (JStr event_id # rest) g =
     (if CHR ''-'' \<in> set event_id then
        (let parts = split_dash event_id in
         case py_int (parts ! 0) of
           Inl err \<Rightarrow> Inl err
         | Inr id_num \<Rightarrow> group_ids rest (add_id (parts ! 1) id_num g))
      else group_ids rest g)"
| "group_ids (JNull # rest) g = Inl TypeError"
| "group_ids (JNum n # rest) g = Inl TypeError"

text \<open>The second loop, over the years in sorted order.\<close>

fun find_missing ::
  "string list \<Rightarrow> (string \<times> int set) list \<Rightarrow> (string \<times> int set) list \<Rightarrow> (string \<times> int set) list" where
  "find_missing [] g missing_by_year = missing_by_year"
| "find_missing (year # rest) g missing_by_year =
     (let ids = ids_of_year g year in
      if ids = {} then find_missing rest g missing_by_year
      else
        (let max_id = Max ids;
             expected = {1..max_id};
             missing = expected - ids
         in find_missing rest g (dict_set year missing missing_by_year)))"

definition analyze_missing_ids :: "fetcher \<Rightarrow> error + (string \<times> int set) list" where
  "analyze_missing_ids f =
     (case group_ids (map fst (all_events f)) [] of
        Inl err \<Rightarrow> Inl err
      | Inr ids_by_year \<Rightarrow> Inr (find_missing (sort (map fst ids_by_year)) ids_by_year []))"

section \<open>Phase 2: filling the gaps by identifier\<close>

text \<open>\<^verbatim>\<open>f"{id_num}"\<close>: the decimal digits of an integer.\<close>

fun digits_of :: "nat \<Rightarrow> string" where
  "digits_of n =
     (if n < 10 then [char_of (48 + n)] else digits_of (n div 10) @ [char_of (48 + n mod 10)])"

definition str_int :: "int \<Rightarrow> string" where
  "str_int i = (if i < 0 then CHR ''-'' # digits_of (nat (- i)) else digits_of (nat i))"

definition fetch_by_id :: "server \<Rightarrow> int \<Rightarrow> string \<Rightarrow> fetcher \<Rightarrow> event option \<times> fetcher" where
  "fetch_by_id srv id_num year f =
     (let service_request_id = str_int id_num @ ''-'' @ year in
      case client_get srv (IdReq service_request_id) f of
        (Ok events, f1) \<Rightarrow> (if events \<noteq> [] \<and> length events > 0 then (Some (hd events), f1) else (None, f1))
      | (HttpError code, f1) \<Rightarrow>
          (if code = 404 then (None, f1)
           else (None, f1\<lparr>console := console f1 @ [ErrorFetching service_request_id]\<rparr>))
      | (Failure, f1) \<Rightarrow> (None, f1\<lparr>console := console f1 @ [ErrorFetching service_request_id]\<rparr>))"

text \<open>
  The loop state of Phase 2: the fetcher and the counters \<^verbatim>\<open>fetched_count\<close> and
  \<^verbatim>\<open>not_found_count\<close>. The per-batch and per-year counters only feed progress lines.
\<close>

record lookup_state =
  fetcher_of :: fetcher
  fetched_count :: nat
  not_found_count :: nat

text \<open>The body of \<^verbatim>\<open>for id_num in batch\<close>. An empty \<^verbatim>\<open>dict\<close> is falsy.\<close>

definition lookup_one :: "server \<Rightarrow> string \<Rightarrow> lookup_state \<Rightarrow> int \<Rightarrow> lookup_state" where
  "lookup_one srv year st id_num =
     (case fetch_by_id srv id_num year (fetcher_of st) of
        (Some event, f1) \<Rightarrow>
          if event \<noteq> [] then
            (let service_request_id = event_get event ''service_request_id'' in
             st\<lparr>fetcher_of := f1\<lparr>all_events := dict_set service_request_id event (all_events f1)\<rparr>,
                fetched_count := fetched_count st + 1\<rparr>)
          else st\<lparr>fetcher_of := f1, not_found_count := not_found_count st + 1\<rparr>
      | (None, f1) \<Rightarrow> st\<lparr>fetcher_of := f1, not_found_count := not_found_count st + 1\<rparr>)"

text \<open>\<^verbatim>\<open>[xs[i:i+n] for i in range(0, len(xs), n)]\<close>.\<close>

function batches :: "nat \<Rightarrow> 'a list \<Rightarrow> 'a list list" where
  "batches n xs = (if n = 0 \<or> xs = [] then [] else take n xs # batches n (drop n xs))"
  by pat_completeness auto
termination
  by (relation "measure (\<lambda>(n, xs). length xs)") auto

definition lookup_year :: "server \<Rightarrow> (string \<times> int set) list \<Rightarrow> lookup_state \<Rightarrow> string \<Rightarrow> lookup_state" where
  "lookup_year srv missing_by_year st year =
     (let missing_ids = sorted_list_of_set (case map_of missing_by_year year of None \<Rightarrow> {} | Some s \<Rightarrow> s) in
      if missing_ids = [] then st
      else foldl (\<lambda>st batch. foldl (lookup_one srv year) st batch) st (batches 100 missing_ids))"

definition phase2_id_based_fetch :: "server \<Rightarrow> (string \<times> int set) list \<Rightarrow> fetcher \<Rightarrow> fetcher" where
  "phase2_id_based_fetch srv missing_by_year f =
     (let total_missing = sum_list (map (\<lambda>(year, ids). card ids) missing_by_year) in
      if total_missing = 0 then f
      else
        (let st = foldl (lookup_year srv missing_by_year)
                    \<lparr>fetcher_of = f, fetched_count = 0, not_found_count = 0\<rparr>
                    (sort (map fst missing_by_year))
         in (fetcher_of st)\<lparr>id_fetch_count := fetched_count st\<rparr>))"

section \<open>Finalize\<close>

text \<open>The sort key \<^verbatim>\<open>e.get("requested_datetime", "")\<close>.\<close>

definition sort_key_of :: "event \<Rightarrow> jval" where
  "sort_key_of e = event_get_default e ''requested_datetime'' (JStr [])"

text \<open>
  \<^verbatim>\<open>events_list.sort(key=..., reverse=True)\<close> is stable: Python reverses the list, sorts
  it stably in ascending order and reverses it again. Strings compare with strings and
  integers with integers; any other comparison raises \<^verbatim>\<open>TypeError\<close>, and a list of
  fewer than two items is never compared. The result is the list handed to
  \<^verbatim>\<open>json.dump\<close>.
\<close>

definition save_to_file :: "fetcher \<Rightarrow> error + event list" where
  "save_to_file f =
     (let events_list = map snd (all_events f) in
      if length events_list < 2 then Inr events_list
      else if list_all (\<lambda>e. is_JStr (sort_key_of e)) events_list then
        Inr (rev (sort_key (\<lambda>e. str_of (sort_key_of e)) (rev events_list)))
      else if list_all (\<lambda>e. is_JNum (sort_key_of e)) events_list then
        Inr (rev (sort_key (\<lambda>e. num_of (sort_key_of e)) (rev events_list)))
      else Inl TypeError)"

section \<open>Notions used in the statements\<close>

text \<open>The requests for \<open>n\<close> successive pages of a window, starting at page \<open>p\<close>.\<close>

definition page_gets :: "date \<Rightarrow> date \<Rightarrow> nat \<Rightarrow> nat \<Rightarrow> effect list" where
  "page_gets s e p n = map (\<lambda>q. Get (PageReq s e q)) [p..<p + n]"

text \<open>
  What a window plan for the days \<open>s\<close> to \<open>e\<close> has to be: the first window starts at
  \<open>s\<close>, every window spans 7 days or, when fewer days are left, ends at \<open>e\<close>, the next
  window starts on the day after, and nothing of the span is left at the end.
\<close>

fun tiles :: "date \<Rightarrow> date \<Rightarrow> (date \<times> date) list \<Rightarrow> bool" where
  "tiles s e [] = (e < s)"
| "tiles s e ((a, b) # ws) =
     (a = s \<and> s \<le> b \<and> b \<le> e \<and> (b = s + 6 \<or> b = e \<and> b < s + 6) \<and> tiles (b + 1) e ws)"

text \<open>
  The composite identifier a key of the store stands for, as the analysis reads it: the
  year and the sequence number, for a string key with a dash and a numeric prefix.
\<close>

definition composite_id :: "jval \<Rightarrow> (string \<times> int) option" where
  "composite_id k =
     (case k of
        JStr s \<Rightarrow>
          if CHR ''-'' \<in> set s then
            (case py_int (split_dash s ! 0) of
               Inl err \<Rightarrow> None
             | Inr id_num \<Rightarrow> Some (split_dash s ! 1, id_num))
          else None
      | _ \<Rightarrow> None)"

text \<open>The sequence numbers that a list of keys contributes to one year.\<close>

definition observed_in :: "jval list \<Rightarrow> string \<Rightarrow> int set" where
  "observed_in ks year =
     set (List.map_filter
            (\<lambda>k. case composite_id k of
                   None \<Rightarrow> None
                 | Some (y, id_num) \<Rightarrow> if y = year then Some id_num else None) ks)"

text \<open>The sequence numbers observed in the store for one year.\<close>

definition observed :: "fetcher \<Rightarrow> string \<Rightarrow> int set" where
  "observed f year = observed_in (map fst (all_events f)) year"

text \<open>
  A key the analysis can read: a string that has no dash, or whose part before the
  first dash is a number.
\<close>

definition readable_key :: "jval \<Rightarrow> bool" where
  "readable_key k =
     (case k of
        JStr s \<Rightarrow> CHR ''-'' \<notin> set s \<or> composite_id k \<noteq> None
      | _ \<Rightarrow> False)"

text \<open>The identifier \<^verbatim>\<open>f"{id_num}-{year}"\<close> that a lookup asks for.\<close>

definition request_id :: "string \<Rightarrow> int \<Rightarrow> string" where
  "request_id year id_num = str_int id_num @ ''-'' @ year"

text \<open>
  The order in which Phase 2 looks the missing identifiers up: year by year in sorted
  order, and within a year by ascending sequence number.
\<close>

definition lookup_order :: "(string \<times> int set) list \<Rightarrow> (string \<times> int) list" where
  "lookup_order missing_by_year =
     concat (map (\<lambda>year. map (Pair year) (sorted_list_of_set (ids_of_year missing_by_year year)))
                 (sort (map fst missing_by_year)))"

text \<open>
  A record has a timestamp when its \<^verbatim>\<open>requested_datetime\<close> is present and not empty
  (the test \<^verbatim>\<open>if d\<close> of \<^verbatim>\<open>print_summary\<close>).
\<close>

definition has_timestamp :: "event \<Rightarrow> bool" where
  "has_timestamp e = truthy (event_get e ''requested_datetime'')"

text \<open>The timestamp the records are ordered by; the empty string when there is none.\<close>

definition timestamp :: "event \<Rightarrow> string" where
  "timestamp e = str_of (sort_key_of e)"

text \<open>
  The assignments that storing a list of events makes, in program order: one for each
  event whose \<^verbatim>\<open>service_request_id\<close> is truthy, under that identifier.
\<close>

definition id_pairs :: "event list \<Rightarrow> (jval \<times> event) list" where
  "id_pairs events =
     map (\<lambda>e. (event_get e ''service_request_id'', e))
         (filter (\<lambda>e. truthy (event_get e ''service_request_id'')) events)"

text \<open>
  The assignment that a lookup of Phase 2 makes for what \<^verbatim>\<open>fetch_by_id\<close> returned: one
  for a non-empty event, under the identifier the event carries, and none otherwise.
\<close>

definition found_pair :: "event option \<Rightarrow> (jval \<times> event) list" where
  "found_pair r =
     (case r of
        None \<Rightarrow> []
      | Some event \<Rightarrow> if event \<noteq> [] then [(event_get event ''service_request_id'', event)] else [])"

text \<open>
  The events that the window fetches of a sweep return, window after window, in the order
  the service delivered them; \<open>None\<close> when a fetch never returns.
\<close>

fun sweep_events :: "server \<Rightarrow> (date \<times> date) list \<Rightarrow> fetcher \<Rightarrow> event list option" where
  "sweep_events srv [] f = Some []"
| "sweep_events srv ((start, end_d) # rest) f =
     (case fetch_by_date_range srv start end_d f of
        None \<Rightarrow> None
      | Some (events, f1) \<Rightarrow>
          (case sweep_events srv rest f1 of
             None \<Rightarrow> None
           | Some later \<Rightarrow> Some (events @ later)))"

text \<open>
  The assignments that the lookups of a list of identifiers make, lookup after lookup,
  each lookup seeing the effects of those before it.
\<close>

fun lookups_found :: "server \<Rightarrow> (string \<times> int) list \<Rightarrow> fetcher \<Rightarrow> (jval \<times> event) list" where
  "lookups_found srv [] f = []"
| "lookups_found srv ((year, id_num) # rest) f =
     (case fetch_by_id srv id_num year f of
        (r, f1) \<Rightarrow> found_pair r @ lookups_found srv rest f1)"

section \<open>Sample inputs\<close>

text \<open>A service that answers the \<open>n\<close>-th request of a run with the \<open>n\<close>-th response of a script.\<close>

definition scripted :: "response list \<Rightarrow> server" where
  "scripted rs tr req = (if length tr < length rs then rs ! length tr else Failure)"

text \<open>A fetcher as the constructor leaves it, for the days \<open>s\<close> to \<open>e\<close>.\<close>

definition new_fetcher :: "date \<Rightarrow> date \<Rightarrow> fetcher" where
  "new_fetcher s e =
     \<lparr>start_date = s, end_date = e, all_events = [],
      date_fetch_count = 0, id_fetch_count = 0, total_events = 0,
      effects = [], console = []\<rparr>"

text \<open>The loop state at the start of Phase 2 of a new session.\<close>

definition fresh_state :: lookup_state where
  "fresh_state = \<lparr>fetcher_of = new_fetcher 739252 739258, fetched_count = 0, not_found_count = 0\<rparr>"

text \<open>An event as the service delivers it.\<close>

definition sample_event :: event where
  "sample_event = [(''service_request_id'', JStr ''17-2025''),
                   (''requested_datetime'', JStr ''2025-01-03T10:00:00+01:00'')]"

text \<open>
  Two events a lookup may be answered with: one that carries another identifier than
  the one asked for, and one that carries none.
\<close>

definition stray_event :: event where
  "stray_event = [(''service_request_id'', JStr ''99-2025''), (''status'', JStr ''open'')]"

definition anonymous_event :: event where
  "anonymous_event = [(''status'', JStr ''open'')]"

text \<open>
  A store that holds the numbers 1, 2, 4, 5 of 2025 and 1 to 5 of 2026, and nothing of
  2024.
\<close>

definition gap_store :: store where
  "gap_store =
     [(JStr ''1-2025'', sample_event), (JStr ''2-2025'', sample_event),
      (JStr ''4-2025'', sample_event), (JStr ''5-2025'', sample_event),
      (JStr ''1-2026'', sample_event), (JStr ''2-2026'', sample_event),
      (JStr ''3-2026'', sample_event), (JStr ''4-2026'', sample_event),
      (JStr ''5-2026'', sample_event)]"

text \<open>
  A store of four records: two with a timestamp, one without the field and one with an
  empty timestamp.
\<close>

definition dated_store :: store where
  "dated_store =
     [(JStr ''1-2025'', [(''service_request_id'', JStr ''1-2025''),
                         (''requested_datetime'', JStr ''2025-01-01T08:00:00+01:00'')]),
      (JStr ''2-2025'', [(''service_request_id'', JStr ''2-2025'')]),
      (JStr ''3-2025'', [(''service_request_id'', JStr ''3-2025''),
                         (''requested_datetime'', JStr ''2025-03-01T08:00:00+01:00'')]),
      (JStr ''4-2025'', [(''service_request_id'', JStr ''4-2025''),
                         (''requested_datetime'', JStr [])])]"

text \<open>A later version of the sample event: the same identifier, other content.\<close>

definition revised_event :: event where
  "revised_event = [(''service_request_id'', JStr ''17-2025''), (''status'', JStr ''closed'')]"

text \<open>A store of two records, the second with the timestamp \<^verbatim>\<open>null\<close>.\<close>

definition null_dated_store :: store where
  "null_dated_store =
     [(JStr ''1-2025'', [(''service_request_id'', JStr ''1-2025''),
                         (''requested_datetime'', JStr ''2025-01-01T08:00:00+01:00'')]),
      (JStr ''2-2025'', [(''service_request_id'', JStr ''2-2025''),
                         (''requested_datetime'', JNull)])]"

section \<open>Dictionaries and sequences of merges\<close>

lemma dict_set_keys: "fst ` set (dict_set k v d) = insert k (fst ` set d)"
  by (simp add: dict_set_def dom_update)

lemma dict_set_distinct: "distinct (map fst d) \<Longrightarrow> distinct (map fst (dict_set k v d))"
  by (simp add: dict_set_def distinct_update)

lemma dict_set_map_of: "map_of (dict_set k v d) = (map_of d)(k \<mapsto> v)"
  by (simp add: dict_set_def update_conv')

lemma merge_all_snoc: "merge_all (kvs @ [(k, v)]) st = dict_set k v (merge_all kvs st)"
  by (simp add: merge_all_def)

lemma merge_all_append: "merge_all (xs @ ys) st = merge_all ys (merge_all xs st)"
  by (simp add: merge_all_def)

lemma merge_all_keys: "fst ` set (merge_all kvs st) = fst ` set kvs \<union> fst ` set st"
proof (induction kvs rule: rev_induct)
  case Nil
  show ?case by (simp add: merge_all_def)
next
  case (snoc kv kvs)
  obtain k v where kv: "kv = (k, v)" by (cases kv)
  show ?case
    unfolding kv merge_all_snoc dict_set_keys snoc.IH by auto
qed

lemma merge_all_distinct:
  "distinct (map fst st) \<Longrightarrow> distinct (map fst (merge_all kvs st))"
proof (induction kvs rule: rev_induct)
  case Nil
  then show ?case by (simp add: merge_all_def)
next
  case (snoc kv kvs)
  obtain k v where kv: "kv = (k, v)" by (cases kv)
  from snoc show ?case
    unfolding kv merge_all_snoc by (simp add: dict_set_distinct)
qed

lemma merge_all_map_of: "map_of (merge_all kvs st) = map_of st ++ map_of (rev kvs)"
proof (induction kvs rule: rev_induct)
  case Nil
  show ?case by (simp add: merge_all_def)
next
  case (snoc kv kvs)
  obtain k v where kv: "kv = (k, v)" by (cases kv)
  show ?case
    unfolding kv merge_all_snoc dict_set_map_of snoc.IH
    by (rule ext) (simp add: map_add_def)
qed

lemma merge_all_length:
  "length (merge_all kvs []) = card (fst ` set kvs)"
proof -
  have d: "distinct (map fst (merge_all kvs []))"
    by (rule merge_all_distinct) simp
  have "length (merge_all kvs []) = length (map fst (merge_all kvs []))" by simp
  also have "\<dots> = card (set (map fst (merge_all kvs [])))"
    using d by (simp only: distinct_card)
  also have "\<dots> = card (fst ` set kvs)"
    by (simp add: merge_all_keys)
  finally show ?thesis .
qed

section \<open>Pagination of a window\<close>

lemma page_gets_0: "page_gets s e p 0 = []"
  by (simp add: page_gets_def)

lemma page_gets_Suc_front: "page_gets s e p (Suc n) = Get (PageReq s e p) # page_gets s e (Suc p) n"
  by (simp add: page_gets_def upt_conv_Cons)

lemma length_page_gets: "length (page_gets s e p n) = n"
  by (simp add: page_gets_def)

lemma fetch_pages_full:
  assumes "\<forall>i<length pages. srv (effects f @ page_gets s e p i) (PageReq s e (p + i)) = Ok (pages ! i)
              \<and> 100 \<le> length (pages ! i)"
  shows "fetch_pages srv s e p acc f =
         fetch_pages srv s e (p + length pages) (acc @ concat pages)
           (f\<lparr>effects := effects f @ page_gets s e p (length pages)\<rparr>)"
  using assms
proof (induction pages arbitrary: p acc f)
  case Nil
  show ?case by (simp add: page_gets_0)
next
  case (Cons pg pages)
  let ?f1 = "f\<lparr>effects := effects f @ [Get (PageReq s e p)]\<rparr>"
  from Cons.prems have h0: "srv (effects f) (PageReq s e p) = Ok pg" and l0: "100 \<le> length pg"
    by (auto simp: page_gets_0 dest: spec [where x = 0])
  have step: "fetch_pages srv s e p acc f = fetch_pages srv s e (p + 1) (acc @ pg) ?f1"
    using h0 l0 by (subst fetch_pages.simps) (auto simp: client_get_def)
  have rest: "\<forall>i<length pages. srv (effects ?f1 @ page_gets s e (p + 1) i) (PageReq s e (p + 1 + i)) = Ok (pages ! i)
              \<and> 100 \<le> length (pages ! i)"
  proof (intro allI impI)
    fix i assume "i < length pages"
    then have "Suc i < length (pg # pages)" by simp
    with Cons.prems have "srv (effects f @ page_gets s e p (Suc i)) (PageReq s e (p + Suc i)) = Ok ((pg # pages) ! Suc i)
              \<and> 100 \<le> length ((pg # pages) ! Suc i)" by blast
    then show "srv (effects ?f1 @ page_gets s e (p + 1) i) (PageReq s e (p + 1 + i)) = Ok (pages ! i)
              \<and> 100 \<le> length (pages ! i)"
      by (simp add: page_gets_Suc_front)
  qed
  show ?case
    unfolding step Cons.IH [OF rest]
    by (simp add: page_gets_Suc_front)
qed

lemma fetch_pages_short:
  assumes "srv (effects f) (PageReq s e p) = Ok pg" "length pg < 100"
  shows "fetch_pages srv s e p acc f = Some (acc @ pg, f\<lparr>effects := effects f @ [Get (PageReq s e p)]\<rparr>)"
  using assms by (subst fetch_pages.simps) (auto simp: client_get_def)

lemma fetch_pages_error:
  assumes "srv (effects f) (PageReq s e p) = HttpError c \<or> srv (effects f) (PageReq s e p) = Failure"
  shows "fetch_pages srv s e p acc f =
     Some (acc, f\<lparr>effects := effects f @ [Get (PageReq s e p)], console := console f @ [ErrorOnPage p]\<rparr>)"
  using assms by (subst fetch_pages.simps) (auto simp: client_get_def)

lemma page_gets_snoc: "page_gets s e p (Suc n) = page_gets s e p n @ [Get (PageReq s e (p + n))]"
  by (simp add: page_gets_def)

text \<open>
  Claim C2. In a window fetch the pages are requested in increasing order, starting at
  page 1. When every page but the last has at least 100 items (in particular exactly 100)
  and the last one has fewer than 100, the fetch returns all the items and has sent
  exactly one request per page: a page of 100 items is always followed by the request
  for the next page, and the first shorter page ends the fetch. Pages of sizes
  100, 100, 37 give 3 requests and 237 records; a first page of 42 gives 1 request.
\<close>

theorem fetch_by_date_range_pagination:
  assumes answers: "\<forall>i<length pages.
            srv (effects f @ page_gets s e 1 i) (PageReq s e (1 + i)) = Ok (pages ! i)"
    and full: "\<forall>i<length pages - 1. 100 \<le> length (pages ! i)"
    and final: "pages \<noteq> []" "length (last pages) < 100"
  shows "fetch_by_date_range srv s e f =
         Some (concat pages, f\<lparr>effects := effects f @ page_gets s e 1 (length pages)\<rparr>)"
proof -
  define n where "n = length pages - 1"
  define front where "front = butlast pages"
  have len: "length pages = Suc n" and lf: "length front = n"
    using final(1) by (simp_all add: n_def front_def)
  have pages: "pages = front @ [last pages]"
    using final(1) by (simp add: front_def)
  have nth_front: "front ! i = pages ! i" if "i < n" for i
    using that lf by (simp add: front_def nth_butlast)
  have "\<forall>i<length front. srv (effects f @ page_gets s e 1 i) (PageReq s e (1 + i)) = Ok (front ! i)
              \<and> 100 \<le> length (front ! i)"
  proof (intro allI impI)
    fix i assume "i < length front"
    then have i: "i < n" by (simp add: lf)
    then have "i < length pages" by (simp add: len)
    with answers have "srv (effects f @ page_gets s e 1 i) (PageReq s e (1 + i)) = Ok (pages ! i)"
      by blast
    moreover from full i have "100 \<le> length (pages ! i)"
      by (simp add: n_def)
    ultimately show "srv (effects f @ page_gets s e 1 i) (PageReq s e (1 + i)) = Ok (front ! i)
              \<and> 100 \<le> length (front ! i)"
      by (simp add: nth_front [OF i])
  qed
  from fetch_pages_full [OF this, of "[]"]
  have a: "fetch_pages srv s e 1 [] f =
         fetch_pages srv s e (1 + n) (concat front)
           (f\<lparr>effects := effects f @ page_gets s e 1 n\<rparr>)"
    unfolding lf append_Nil .
  have "srv (effects f @ page_gets s e 1 n) (PageReq s e (1 + n)) = Ok (pages ! n)"
    using answers len by simp
  moreover have "pages ! n = last pages"
    using final(1) by (simp add: last_conv_nth n_def)
  ultimately have b: "fetch_pages srv s e (1 + n) (concat front) (f\<lparr>effects := effects f @ page_gets s e 1 n\<rparr>)
      = Some (concat front @ last pages,
              f\<lparr>effects := effects f @ page_gets s e 1 n @ [Get (PageReq s e (1 + n))]\<rparr>)"
    using fetch_pages_short [of srv "f\<lparr>effects := effects f @ page_gets s e 1 n\<rparr>" s e "1 + n" "last pages" "concat front"] final(2)
    by simp
  have c: "concat front @ last pages = concat pages"
    by (subst (2) pages) simp
  show ?thesis
    unfolding fetch_by_date_range_def using a b c
    by (simp add: len page_gets_snoc)
qed

lemma scripted_answers:
  "effects f = [] \<Longrightarrow>
   \<forall>i<length pages. scripted (map Ok pages) (effects f @ page_gets s e 1 i) (PageReq s e (1 + i)) = Ok (pages ! i)"
  by (simp add: scripted_def length_page_gets)

theorem fetch_by_date_range_pagination_witness:
  "map_option (\<lambda>(events, f). (length events, effects f))
     (fetch_by_date_range
        (scripted (map Ok [replicate 100 sample_event, replicate 100 sample_event, replicate 37 sample_event]))
        739252 739258 (new_fetcher 739252 739258))
     = Some (237, [Get (PageReq 739252 739258 1), Get (PageReq 739252 739258 2),
                   Get (PageReq 739252 739258 3)])
   \<and> map_option (\<lambda>(events, f). (length events, effects f))
     (fetch_by_date_range (scripted (map Ok [replicate 42 sample_event]))
        739252 739258 (new_fetcher 739252 739258))
     = Some (42, [Get (PageReq 739252 739258 1)])"
proof -
  let ?f = "new_fetcher 739252 739258"
  let ?p3 = "[replicate 100 sample_event, replicate 100 sample_event, replicate 37 sample_event]"
  let ?p1 = "[replicate 42 sample_event]"
  have e: "effects ?f = []" by (simp add: new_fetcher_def)
  have full3: "\<forall>i<length ?p3 - 1. 100 \<le> length (?p3 ! i)"
    by (simp add: nth_Cons split: nat.split)
  have r3: "fetch_by_date_range (scripted (map Ok ?p3)) 739252 739258 ?f =
        Some (concat ?p3, ?f\<lparr>effects := effects ?f @ page_gets 739252 739258 1 (length ?p3)\<rparr>)"
    by (rule fetch_by_date_range_pagination [OF scripted_answers [OF e] full3]) simp_all
  have r1: "fetch_by_date_range (scripted (map Ok ?p1)) 739252 739258 ?f =
        Some (concat ?p1, ?f\<lparr>effects := effects ?f @ page_gets 739252 739258 1 (length ?p1)\<rparr>)"
    by (rule fetch_by_date_range_pagination [OF scripted_answers [OF e]]) simp_all
  have g3: "page_gets 739252 739258 1 (length ?p3) = [Get (PageReq 739252 739258 1),
                   Get (PageReq 739252 739258 2), Get (PageReq 739252 739258 3)]"
    by (simp add: page_gets_def upt_rec)
  have g1: "page_gets 739252 739258 1 (length ?p1) = [Get (PageReq 739252 739258 1)]"
    by (simp add: page_gets_def)
  show ?thesis
    unfolding r3 r1 g3 g1 e by simp
qed

section \<open>Errors inside a window\<close>

lemma fetch_by_date_range_error:
  assumes answers: "\<forall>i<length pages.
            srv (effects f @ page_gets s e 1 i) (PageReq s e (1 + i)) = Ok (pages ! i)
            \<and> 100 \<le> length (pages ! i)"
    and err: "srv (effects f @ page_gets s e 1 (length pages)) (PageReq s e (1 + length pages)) = HttpError c
            \<or> srv (effects f @ page_gets s e 1 (length pages)) (PageReq s e (1 + length pages)) = Failure"
  shows "fetch_by_date_range srv s e f =
         Some (concat pages,
               f\<lparr>effects := effects f @ page_gets s e 1 (Suc (length pages)),
                 console := console f @ [ErrorOnPage (1 + length pages)]\<rparr>)"
proof -
  let ?f1 = "f\<lparr>effects := effects f @ page_gets s e 1 (length pages)\<rparr>"
  from fetch_pages_full [OF answers, of "[]"]
  have a: "fetch_pages srv s e 1 [] f = fetch_pages srv s e (1 + length pages) (concat pages) ?f1"
    unfolding append_Nil .
  have "srv (effects ?f1) (PageReq s e (1 + length pages)) = HttpError c
        \<or> srv (effects ?f1) (PageReq s e (1 + length pages)) = Failure"
    using err by simp
  from fetch_pages_error [of srv ?f1 s e "1 + length pages" c "concat pages", OF this]
  show ?thesis
    unfolding fetch_by_date_range_def a by (simp add: page_gets_snoc)
qed

text \<open>
  Claim C7, as amended. When a window's pages 1..k-1 arrive in full and the request for
  page k meets an error status or any other failure, the fetch of that window stops
  there: exactly k requests have been sent (no retry, no later page), the items of the
  pages already collected are returned, and a warning line for page k is printed to the
  console. The value returned to the caller is the plain list and carries no sign of the
  error. The sweep then stores the returned items and goes on with the remaining windows.
\<close>

theorem window_error_keeps_partial_pages:
  assumes answers: "\<forall>i<length pages.
            srv (effects f @ page_gets s e 1 i) (PageReq s e (1 + i)) = Ok (pages ! i)
            \<and> 100 \<le> length (pages ! i)"
    and err: "srv (effects f @ page_gets s e 1 (length pages)) (PageReq s e (1 + length pages)) = HttpError c
            \<or> srv (effects f @ page_gets s e 1 (length pages)) (PageReq s e (1 + length pages)) = Failure"
  shows "fetch_by_date_range srv s e f =
           Some (concat pages,
                 f\<lparr>effects := effects f @ page_gets s e 1 (Suc (length pages)),
                   console := console f @ [ErrorOnPage (1 + length pages)]\<rparr>)
         \<and> fetch_windows srv ((s, e) # rest) f =
           fetch_windows srv rest
             (f\<lparr>effects := effects f @ page_gets s e 1 (Suc (length pages)),
               console := console f @ [ErrorOnPage (1 + length pages)],
               all_events := store_events (concat pages) (all_events f)\<rparr>)"
  using fetch_by_date_range_error [OF answers err] by simp

lemma store_events_replicate:
  assumes "truthy (event_get ev ''service_request_id'')"
  shows "store_events (replicate (Suc n) ev) st = dict_set (event_get ev ''service_request_id'') ev st"
proof (induction n arbitrary: st)
  case 0
  show ?case using assms by simp
next
  case (Suc n)
  have "store_events (replicate (Suc (Suc n)) ev) st
        = store_events (replicate (Suc n) ev) (dict_set (event_get ev ''service_request_id'') ev st)"
    using assms by simp
  also have "\<dots> = dict_set (event_get ev ''service_request_id'') ev
                      (dict_set (event_get ev ''service_request_id'') ev st)"
    by (rule Suc.IH)
  also have "\<dots> = dict_set (event_get ev ''service_request_id'') ev st"
    by (simp add: dict_set_def)
  finally show ?case .
qed

lemma sample_event_id: "event_get sample_event ''service_request_id'' = JStr ''17-2025''"
  by (simp add: sample_event_def event_get_def)

theorem window_error_keeps_partial_pages_witness:
  "fetch_windows (scripted [Ok (replicate 100 sample_event), HttpError 500, Ok [sample_event]])
     [(739252, 739258), (739259, 739260)] (new_fetcher 739252 739260)
   = Some ((new_fetcher 739252 739260)
       \<lparr>effects := [Get (PageReq 739252 739258 1), Get (PageReq 739252 739258 2),
                    Get (PageReq 739259 739260 1)],
        console := [ErrorOnPage 2],
        all_events := [(JStr ''17-2025'', sample_event)]\<rparr>)"
proof -
  let ?srv = "scripted [Ok (replicate 100 sample_event), HttpError 500, Ok [sample_event]]"
  let ?f = "new_fetcher 739252 739260"
  let ?pages = "[replicate 100 sample_event]"
  have e: "effects ?f = []" "console ?f = []" "all_events ?f = []"
    by (simp_all add: new_fetcher_def)
  have a: "\<forall>i<length ?pages.
            ?srv (effects ?f @ page_gets 739252 739258 1 i) (PageReq 739252 739258 (1 + i)) = Ok (?pages ! i)
            \<and> 100 \<le> length (?pages ! i)"
    by (simp add: e scripted_def page_gets_def)
  have b: "?srv (effects ?f @ page_gets 739252 739258 1 (length ?pages)) (PageReq 739252 739258 (1 + length ?pages)) = HttpError 500
         \<or> ?srv (effects ?f @ page_gets 739252 739258 1 (length ?pages)) (PageReq 739252 739258 (1 + length ?pages)) = Failure"
    by (simp add: e scripted_def page_gets_def)
  have g: "page_gets 739252 739258 1 (Suc (length ?pages)) = [Get (PageReq 739252 739258 1), Get (PageReq 739252 739258 2)]"
    by (simp add: page_gets_def upt_rec)
  have "store_events (replicate (Suc 99) sample_event) [] = [(JStr ''17-2025'', sample_event)]"
    by (subst store_events_replicate) (simp_all add: sample_event_id dict_set_def)
  then have st: "store_events (concat ?pages) [] = [(JStr ''17-2025'', sample_event)]"
    by simp
  have n2: "ErrorOnPage (1 + length ?pages) = ErrorOnPage 2"
    by simp
  let ?f2 = "?f\<lparr>effects := [Get (PageReq 739252 739258 1), Get (PageReq 739252 739258 2)],
               console := [ErrorOnPage 2],
               all_events := [(JStr ''17-2025'', sample_event)]\<rparr>"
  from window_error_keeps_partial_pages [OF a b, of "[(739259, 739260)]", THEN conjunct2]
  have w1: "fetch_windows ?srv [(739252, 739258), (739259, 739260)] ?f = fetch_windows ?srv [(739259, 739260)] ?f2"
    by (simp only: g e st n2 append_Nil)
  let ?f3 = "?f\<lparr>effects := [Get (PageReq 739252 739258 1), Get (PageReq 739252 739258 2),
                            Get (PageReq 739259 739260 1)],
               console := [ErrorOnPage 2],
               all_events := [(JStr ''17-2025'', sample_event)]\<rparr>"
  have fbd: "fetch_by_date_range ?srv 739259 739260 ?f2 = Some ([sample_event], ?f3)"
    unfolding fetch_by_date_range_def
    by (subst fetch_pages.simps) (simp add: client_get_def scripted_def del: One_nat_def)
  have st2: "store_events [sample_event] [(JStr ''17-2025'', sample_event)] = [(JStr ''17-2025'', sample_event)]"
    by (simp add: sample_event_id dict_set_def)
  have w2: "fetch_windows ?srv [(739259, 739260)] ?f2 = Some ?f3"
    by (simp add: fbd st2 del: store_events.simps One_nat_def)
  show ?thesis
    unfolding w1 w2 by (simp del: One_nat_def)
qed

text \<open>
  Against claim C7 as stated (the error is reported to the caller): a fetch whose second
  page fails with status 500 returns to its caller exactly what a fetch returns whose
  second page is empty.
\<close>

theorem window_error_not_returned_counterexample:
  "map_option fst
     (fetch_by_date_range (scripted [Ok (replicate 100 sample_event), HttpError 500])
        739252 739258 (new_fetcher 739252 739258))
     = Some (replicate 100 sample_event)
   \<and> map_option fst
     (fetch_by_date_range (scripted [Ok (replicate 100 sample_event), Ok []])
        739252 739258 (new_fetcher 739252 739258))
     = Some (replicate 100 sample_event)"
proof -
  let ?f = "new_fetcher 739252 739258"
  let ?pages = "[replicate 100 sample_event]"
  let ?bad = "scripted [Ok (replicate 100 sample_event), HttpError 500]"
  let ?good = "scripted [Ok (replicate 100 sample_event), Ok []]"
  have e: "effects ?f = []"
    by (simp add: new_fetcher_def)
  have a: "\<forall>i<length ?pages.
            ?bad (effects ?f @ page_gets 739252 739258 1 i) (PageReq 739252 739258 (1 + i)) = Ok (?pages ! i)
            \<and> 100 \<le> length (?pages ! i)"
    by (simp add: e scripted_def page_gets_def)
  have b: "?bad (effects ?f @ page_gets 739252 739258 1 (length ?pages)) (PageReq 739252 739258 (1 + length ?pages)) = HttpError 500
         \<or> ?bad (effects ?f @ page_gets 739252 739258 1 (length ?pages)) (PageReq 739252 739258 (1 + length ?pages)) = Failure"
    by (simp add: e scripted_def page_gets_def)
  have bad: "map_option fst (fetch_by_date_range ?bad 739252 739258 ?f) = Some (replicate 100 sample_event)"
    unfolding fetch_by_date_range_error [OF a b] by simp
  have a2: "\<forall>i<length ?pages.
            ?good (effects ?f @ page_gets 739252 739258 1 i) (PageReq 739252 739258 (1 + i)) = Ok (?pages ! i)
            \<and> 100 \<le> length (?pages ! i)"
    by (simp add: e scripted_def page_gets_def)
  let ?f1 = "?f\<lparr>effects := effects ?f @ page_gets 739252 739258 1 (length ?pages)\<rparr>"
  have "fetch_by_date_range ?good 739252 739258 ?f
        = fetch_pages ?good 739252 739258 (1 + length ?pages) ([] @ concat ?pages) ?f1"
    unfolding fetch_by_date_range_def by (rule fetch_pages_full [OF a2])
  also have "\<dots> = Some (([] @ concat ?pages) @ [],
                        ?f1\<lparr>effects := effects ?f1 @ [Get (PageReq 739252 739258 (1 + length ?pages))]\<rparr>)"
    by (rule fetch_pages_short) (simp_all add: e scripted_def page_gets_def)
  finally have good: "map_option fst (fetch_by_date_range ?good 739252 739258 ?f) = Some (replicate 100 sample_event)"
    by simp
  from bad good show ?thesis by blast
qed

section \<open>The window plan\<close>

declare plan_windows.simps [simp del]

lemma plan_windows_tiles:
  assumes "date_min \<le> c" "e + 6 \<le> date_max"
  shows "\<exists>ws. plan_windows c e acc = Inr (acc @ ws) \<and> tiles c e ws"
  using assms
proof (induction c e acc rule: plan_windows.induct)
  case (1 current end_d windows)
  show ?case
  proof (cases "current \<le> end_d")
    case False
    then have "plan_windows current end_d windows = Inr (windows @ [])"
      by (subst plan_windows.simps) simp
    moreover have "tiles current end_d []" using False by simp
    ultimately show ?thesis by blast
  next
    case True
    define b where "b = min (current + 6) end_d"
    have a6: "date_add current (7 - 1) = Inr (current + 6)"
      using True 1(2,3) by (simp add: date_add_def valid_date_def)
    have b_bounds: "current \<le> b" "b \<le> end_d"
      using True by (simp_all add: b_def)
    have a1: "date_add b 1 = Inr (b + 1)"
      using b_bounds 1(2,3) by (simp add: date_add_def valid_date_def)
    have "date_min \<le> b + 1"
      using b_bounds 1(2) by simp
    from "1.IH" [OF True a6 b_def a1 this 1(3)]
    obtain ws where ws: "plan_windows (b + 1) end_d (windows @ [(current, b)]) = Inr ((windows @ [(current, b)]) @ ws)"
      and t: "tiles (b + 1) end_d ws"
      by blast
    have "plan_windows current end_d windows = Inr (windows @ (current, b) # ws)"
      using True a6 a1 ws by (subst plan_windows.simps) (simp add: b_def Let_def)
    moreover have "tiles current end_d ((current, b) # ws)"
      using t b_bounds by (auto simp: b_def min_def)
    ultimately show ?thesis by blast
  qed
qed

lemma tiles_nonempty: "tiles s e ws \<Longrightarrow> s \<le> e \<Longrightarrow> ws \<noteq> [] \<and> fst (hd ws) = s"
  by (cases ws) auto

lemma tiles_last: "tiles s e ws \<Longrightarrow> ws \<noteq> [] \<Longrightarrow> snd (last ws) = e"
proof (induction ws arbitrary: s)
  case Nil
  then show ?case by simp
next
  case (Cons w ws)
  obtain a b where w: "w = (a, b)" by (cases w)
  show ?case
  proof (cases "ws = []")
    case True
    with Cons.prems w show ?thesis by auto
  next
    case False
    with Cons w show ?thesis by auto
  qed
qed

lemma tiles_lower: "tiles s e ws \<Longrightarrow> w \<in> set ws \<Longrightarrow> s \<le> fst w"
proof (induction ws arbitrary: s)
  case Nil
  then show ?case by simp
next
  case (Cons x ws)
  obtain a b where x: "x = (a, b)" by (cases x)
  from Cons.prems x have t: "tiles (b + 1) e ws" and ab: "a = s" "s \<le> b" by auto
  show ?case
  proof (cases "w = x")
    case True
    with x ab show ?thesis by simp
  next
    case False
    with Cons.prems have "w \<in> set ws" by simp
    from Cons.IH [OF t this] ab show ?thesis by simp
  qed
qed

lemma tiles_each: "tiles s e ws \<Longrightarrow> w \<in> set ws \<Longrightarrow> fst w \<le> snd w \<and> snd w \<le> fst w + 6"
proof (induction ws arbitrary: s)
  case Nil
  then show ?case by simp
next
  case (Cons x ws)
  obtain a b where x: "x = (a, b)" by (cases x)
  from Cons.prems x have t: "tiles (b + 1) e ws" by simp
  show ?case
  proof (cases "w = x")
    case True
    with Cons.prems x show ?thesis by auto
  next
    case False
    with Cons.prems have "w \<in> set ws" by simp
    from Cons.IH [OF t this] show ?thesis .
  qed
qed

lemma tiles_chain:
  "tiles s e ws \<Longrightarrow> Suc i < length ws \<Longrightarrow>
   fst (ws ! Suc i) = snd (ws ! i) + 1 \<and> snd (ws ! i) = fst (ws ! i) + 6"
proof (induction ws arbitrary: s i)
  case Nil
  then show ?case by simp
next
  case (Cons x ws)
  obtain a b where x: "x = (a, b)" by (cases x)
  from Cons.prems x have t: "tiles (b + 1) e ws"
    and ab: "a = s" "b = s + 6 \<or> b = e \<and> b < s + 6" by auto
  show ?case
  proof (cases i)
    case 0
    with Cons.prems have ne: "ws \<noteq> []" by auto
    then obtain y ys where ws: "ws = y # ys" by (cases ws) auto
    obtain c d where y: "y = (c, d)" by (cases y)
    from t ws y have "c = b + 1" "b + 1 \<le> d" "d \<le> e" by auto
    with ab have "b = s + 6" by auto
    with 0 x ws y ab \<open>c = b + 1\<close> show ?thesis by simp
  next
    case (Suc j)
    with Cons.prems have "Suc j < length ws" by simp
    from Cons.IH [OF t this] Suc show ?thesis by simp
  qed
qed

lemma tiles_union: "tiles s e ws \<Longrightarrow> (\<Union>w\<in>set ws. {fst w..snd w}) = {s..e}"
proof (induction ws arbitrary: s)
  case Nil
  then show ?case by simp
next
  case (Cons x ws)
  obtain a b where x: "x = (a, b)" by (cases x)
  from Cons.prems x have t: "tiles (b + 1) e ws" and ab: "a = s" "s \<le> b" "b \<le> e" by auto
  have "(\<Union>w\<in>set (x # ws). {fst w..snd w}) = {s..b} \<union> {b + 1..e}"
    using Cons.IH [OF t] x ab by simp
  also have "\<dots> = {s..e}"
    using ab by auto
  finally show ?case .
qed

lemma tiles_disjoint:
  "tiles s e ws \<Longrightarrow> i < j \<Longrightarrow> j < length ws \<Longrightarrow>
   {fst (ws ! i)..snd (ws ! i)} \<inter> {fst (ws ! j)..snd (ws ! j)} = {}"
proof (induction ws arbitrary: s i j)
  case Nil
  then show ?case by simp
next
  case (Cons x ws)
  obtain a b where x: "x = (a, b)" by (cases x)
  from Cons.prems x have t: "tiles (b + 1) e ws" by simp
  from Cons.prems obtain j' where j: "j = Suc j'" "j' < length ws"
    by (cases j) auto
  show ?case
  proof (cases i)
    case 0
    have "ws ! j' \<in> set ws" using j by simp
    from tiles_lower [OF t this] have "b + 1 \<le> fst (ws ! j')" .
    with 0 j x show ?thesis by auto
  next
    case (Suc i')
    with Cons.prems j have "i' < j'" by simp
    from Cons.IH [OF t this j(2)] Suc j show ?thesis by simp
  qed
qed

text \<open>
  Claim C5, as amended. For valid dates with start \<open>\<le>\<close> end and an end no later than
  9999-12-25 (so that no date computed by the loop leaves the calendar), the window plan
  of Phase 1 is a non-empty list of windows that starts at start and ends exactly at end;
  each window begins on the day after the previous one ends, every window except possibly
  the last spans 7 days and the last spans at most 7; together the windows cover exactly
  the days from start to end, and no two of them overlap.
\<close>

theorem plan_windows_covers:
  assumes "valid_date s" and "s \<le> e" and "e + 6 \<le> date_max"
  shows "\<exists>ws. plan_windows s e [] = Inr ws
     \<and> ws \<noteq> [] \<and> fst (hd ws) = s \<and> snd (last ws) = e
     \<and> (\<forall>i. Suc i < length ws \<longrightarrow>
            fst (ws ! Suc i) = snd (ws ! i) + 1 \<and> snd (ws ! i) = fst (ws ! i) + 6)
     \<and> (\<forall>w\<in>set ws. fst w \<le> snd w \<and> snd w \<le> fst w + 6)
     \<and> (\<Union>w\<in>set ws. {fst w..snd w}) = {s..e}
     \<and> (\<forall>i j. i < j \<and> j < length ws \<longrightarrow>
            {fst (ws ! i)..snd (ws ! i)} \<inter> {fst (ws ! j)..snd (ws ! j)} = {})"
proof -
  from assms(1) have "date_min \<le> s" by (simp add: valid_date_def)
  from plan_windows_tiles [OF this assms(3), of "[]"]
  obtain ws where p: "plan_windows s e [] = Inr ws" and t: "tiles s e ws"
    by auto
  from tiles_nonempty [OF t assms(2)] have ne: "ws \<noteq> []" and h: "fst (hd ws) = s"
    by simp_all
  show ?thesis
    using p ne h tiles_last [OF t ne] tiles_chain [OF t] tiles_each [OF t]
      tiles_union [OF t] tiles_disjoint [OF t]
    by blast
qed

lemma plan_windows_sample:
  "plan_windows 739252 739270 [] = Inr [(739252, 739258), (739259, 739265), (739266, 739270)]"
  by (simp add: plan_windows.simps date_add_def valid_date_def date_min_def date_max_def)

theorem plan_windows_covers_witness:
  "\<exists>ws. plan_windows 739252 739270 [] = Inr ws
     \<and> ws = [(739252, 739258), (739259, 739265), (739266, 739270)]
     \<and> (\<Union>w\<in>set ws. {fst w..snd w}) = {739252..739270}"
proof -
  have "valid_date 739252" "(739252::int) \<le> 739270" "739270 + 6 \<le> date_max"
    by (simp_all add: valid_date_def date_min_def date_max_def)
  from plan_windows_covers [OF this] plan_windows_sample
  show ?thesis by auto
qed

text \<open>
  Against claim C5 as stated (every pair of valid dates): for start = end = 9999-12-31
  the first \<^verbatim>\<open>current + timedelta(days=6)\<close> leaves the range of \<^verbatim>\<open>date\<close> and the
  plan ends in an \<^verbatim>\<open>OverflowError\<close>.
\<close>

theorem plan_windows_overflow_counterexample:
  "fromisoformat ''9999-12-31'' = Inr 3652059
   \<and> valid_date 3652059
   \<and> plan_windows 3652059 3652059 [] = Inl OverflowError"
proof -
  have "fromisoformat ''9999-12-31'' = Inr 3652059"
    by code_simp
  moreover have "valid_date 3652059"
    by (simp add: valid_date_def date_min_def date_max_def)
  moreover have "plan_windows 3652059 3652059 [] = Inl OverflowError"
    by (simp add: plan_windows.simps date_add_def valid_date_def date_min_def date_max_def)
  ultimately show ?thesis by blast
qed

section \<open>Constructing a session\<close>

lemma new_date_error: "new_date y m d = Inl err \<Longrightarrow> err = ValueError"
  by (simp add: new_date_def split: if_splits)

lemma iso_to_date_error: "iso_to_date y w d = Inl err \<Longrightarrow> err = ValueError"
  by (simp add: iso_to_date_def Let_def split: if_splits)

lemma fromisoformat_error: "fromisoformat s = Inl err \<Longrightarrow> err = ValueError"
  unfolding fromisoformat_def Let_def
  by (auto split: if_splits option.splits dest: new_date_error iso_to_date_error)

lemma plan_windows_empty: "e < s \<Longrightarrow> plan_windows s e ws = Inr ws"
  by (subst plan_windows.simps) simp

text \<open>
  Claim C8, as amended. Constructing a session fails, with a \<^verbatim>\<open>ValueError\<close> and
  before any fetch work, exactly when \<^verbatim>\<open>date.fromisoformat\<close> refuses one of the two
  date strings. The order of the two dates is not checked: with start after end the
  session is constructed, and its Phase 1 then plans no window, sends no request and
  leaves the store empty.
\<close>

theorem init_accepts_reversed_dates:
  "(CleanFetcher_init start_s end_s = Inl ValueError
      \<longleftrightarrow> fromisoformat start_s = Inl ValueError \<or> fromisoformat end_s = Inl ValueError)
   \<and> (fromisoformat start_s = Inr sd \<and> fromisoformat end_s = Inr ed
      \<longrightarrow> CleanFetcher_init start_s end_s = Inr (new_fetcher sd ed))
   \<and> (ed < sd
      \<longrightarrow> plan_windows sd ed [] = Inr []
        \<and> phase1_date_based_fetch srv (new_fetcher sd ed) = Some (Inr (new_fetcher sd ed)))"
proof (intro conjI impI)
  show "CleanFetcher_init start_s end_s = Inl ValueError
      \<longleftrightarrow> fromisoformat start_s = Inl ValueError \<or> fromisoformat end_s = Inl ValueError"
    by (auto simp: CleanFetcher_init_def split: sum.splits dest: fromisoformat_error)
next
  assume "fromisoformat start_s = Inr sd \<and> fromisoformat end_s = Inr ed"
  then show "CleanFetcher_init start_s end_s = Inr (new_fetcher sd ed)"
    by (simp add: CleanFetcher_init_def new_fetcher_def)
next
  assume "ed < sd"
  then show "plan_windows sd ed [] = Inr []"
    by (rule plan_windows_empty)
next
  assume "ed < sd"
  then have "plan_windows (start_date (new_fetcher sd ed)) (end_date (new_fetcher sd ed)) [] = Inr []"
    by (simp add: plan_windows_empty new_fetcher_def)
  then show "phase1_date_based_fetch srv (new_fetcher sd ed) = Some (Inr (new_fetcher sd ed))"
    by (simp add: phase1_date_based_fetch_def) (simp add: new_fetcher_def)
qed

lemma fromisoformat_samples:
  "fromisoformat ''2025-02-01'' = Inr 739283"
  "fromisoformat ''2025-01-01'' = Inr 739252"
  "fromisoformat ''2025-01-07'' = Inr 739258"
  "fromisoformat ''20250101'' = Inr 739252"
  "fromisoformat ''2025-W01-1'' = Inr 739250"
  "fromisoformat ''2025-13-01'' = Inl ValueError"
  "fromisoformat ''01.02.2025'' = Inl ValueError"
  by code_simp+

theorem init_accepts_reversed_dates_witness:
  "CleanFetcher_init ''2025-02-01'' ''2025-01-01'' = Inr (new_fetcher 739283 739252)
   \<and> phase1_date_based_fetch (scripted []) (new_fetcher 739283 739252)
       = Some (Inr (new_fetcher 739283 739252))
   \<and> CleanFetcher_init ''20250101'' ''2025-01-07'' = Inr (new_fetcher 739252 739258)
   \<and> CleanFetcher_init ''2025-13-01'' ''2025-01-01'' = Inl ValueError"
  using init_accepts_reversed_dates [of "''2025-02-01''" "''2025-01-01''" 739283 739252 "scripted []"]
    init_accepts_reversed_dates [of "''20250101''" "''2025-01-07''" 739252 739258 "scripted []"]
    init_accepts_reversed_dates [of "''2025-13-01''" "''2025-01-01''" 0 0 "scripted []"]
  by (simp add: fromisoformat_samples)

text \<open>
  Against claim C8 as stated (start after end fails at session start): the constructor
  returns a fetcher for 2025-02-01 to 2025-01-01.
\<close>

theorem init_reversed_dates_counterexample:
  "CleanFetcher_init ''2025-02-01'' ''2025-01-01'' = Inr (new_fetcher 739283 739252)
   \<and> end_date (new_fetcher 739283 739252) < start_date (new_fetcher 739283 739252)"
  by (simp add: CleanFetcher_init_def fromisoformat_samples new_fetcher_def)

section \<open>The gaps found by the analysis\<close>

text \<open>
  What \<^verbatim>\<open>int\<close> makes of the part of a key before its first dash: blanks around the
  number are dropped, the separators U+001C to U+001F are not, and a literal of more than
  4300 digits is refused.
\<close>

lemma py_int_samples:
  "py_int ''17'' = Inr 17"
  "py_int '' 17 '' = Inr 17"
  "py_int ''+1_000'' = Inr 1000"
  "py_int ''-3'' = Inr (- 3)"
  "py_int [CHR 0xA0, CHR ''5'', CHR 0x85] = Inr 5"
  "py_int [CHR 0x1C, CHR ''5''] = Inl ValueError"
  "py_int [CHR ''5'', CHR 0x1F] = Inl ValueError"
  "py_int ''1__0'' = Inl ValueError"
  "py_int ''abc'' = Inl ValueError"
  "py_int [] = Inl ValueError"
  by code_simp+

lemma nat_literal_limit:
  "int_max_str_digits < length (filter is_digit s) \<Longrightarrow> nat_literal s = None"
  by (auto simp: nat_literal_def split: list.splits)

lemma py_int_limit:
  assumes "int_max_str_digits < length (filter is_digit (strip s))"
  shows "py_int s = Inl ValueError"
proof (cases "strip s")
  case Nil
  then show ?thesis by (simp add: py_int_def)
next
  case (Cons c cs)
  have sign: "\<not> is_digit CHR ''+''" "\<not> is_digit CHR ''-''"
    by code_simp+
  from assms Cons have "c = CHR ''+'' \<or> c = CHR ''-'' \<Longrightarrow> nat_literal cs = None"
    by (intro nat_literal_limit) (auto simp: sign)
  moreover from assms Cons have "nat_literal (c # cs) = None"
    by (intro nat_literal_limit) simp
  ultimately show ?thesis
    using Cons by (simp add: py_int_def)
qed

text \<open>
  A key whose prefix \<^verbatim>\<open>int\<close> refuses is not a composite identifier, and the analysis
  of a store that holds one raises \<^verbatim>\<open>ValueError\<close>.
\<close>

lemma unreadable_key_sample:
  "\<not> readable_key (JStr (CHR 0x1C # ''5-2025''))"
  "analyze_missing_ids ((new_fetcher 739252 739258)\<lparr>all_events := [(JStr (CHR 0x1C # ''5-2025''), sample_event)]\<rparr>) = Inl ValueError"
  by code_simp+

lemma observed_in_Nil: "observed_in [] year = {}"
  by (simp add: observed_in_def map_filter_simps)

lemma observed_in_Cons:
  "observed_in (k # ks) year =
     (case composite_id k of
        None \<Rightarrow> observed_in ks year
      | Some (y, id_num) \<Rightarrow> if y = year then insert id_num (observed_in ks year) else observed_in ks year)"
  by (simp add: observed_in_def map_filter_simps split: option.splits)

lemma observed_eq: "observed f year = observed_in (map fst (all_events f)) year"
  by (simp add: observed_def)

lemma ids_of_year_add_id:
  "ids_of_year (add_id y n g) y' = (if y' = y then insert n (ids_of_year g y) else ids_of_year g y')"
  by (simp add: ids_of_year_def add_id_def dict_set_map_of)

lemma group_ids_readable:
  assumes "\<forall>k\<in>set ks. readable_key k"
  shows "\<exists>g'. group_ids ks g = Inr g'
            \<and> (\<forall>y. ids_of_year g' y = ids_of_year g y \<union> observed_in ks y)"
  using assms
proof (induction ks arbitrary: g)
  case Nil
  then show ?case by (simp add: observed_in_Nil)
next
  case (Cons k ks)
  from Cons.prems have rk: "readable_key k" and rks: "\<forall>k\<in>set ks. readable_key k"
    by simp_all
  from rk obtain s where k: "k = JStr s"
    by (cases k) (simp_all add: readable_key_def)
  show ?case
  proof (cases "CHR ''-'' \<in> set s")
    case False
    then have c: "composite_id k = None" by (simp add: composite_id_def k)
    from Cons.IH [OF rks, of g] False c show ?thesis
      by (simp add: k observed_in_Cons)
  next
    case True
    with rk k obtain y n where c: "composite_id k = Some (y, n)"
      by (auto simp: readable_key_def)
    with True k have p: "py_int (split_dash s ! 0) = Inr n" and y: "y = split_dash s ! 1"
      by (auto simp: composite_id_def split: sum.splits)
    from Cons.IH [OF rks, of "add_id y n g"]
    obtain g' where g': "group_ids ks (add_id y n g) = Inr g'"
      "\<forall>y'. ids_of_year g' y' = ids_of_year (add_id y n g) y' \<union> observed_in ks y'"
      by blast
    have "group_ids (k # ks) g = Inr g'"
      using True p y g'(1) by (simp add: k Let_def)
    moreover have "\<forall>y'. ids_of_year g' y' = ids_of_year g y' \<union> observed_in (k # ks) y'"
      using g'(2) c by (auto simp: observed_in_Cons ids_of_year_add_id)
    ultimately show ?thesis by blast
  qed
qed

lemma find_missing_map_of:
  "map_of (find_missing ys g acc) y =
     (if y \<in> set ys \<and> ids_of_year g y \<noteq> {}
      then Some ({1..Max (ids_of_year g y)} - ids_of_year g y)
      else map_of acc y)"
proof (induction ys arbitrary: acc)
  case Nil
  show ?case by simp
next
  case (Cons x ys)
  show ?case
    by (cases "ids_of_year g x = {}") (auto simp: Cons.IH Let_def dict_set_map_of)
qed

lemma find_missing_distinct:
  "distinct (map fst acc) \<Longrightarrow> distinct (map fst (find_missing ys g acc))"
  by (induction ys arbitrary: acc) (auto simp: Let_def dict_set_distinct)

lemma ids_of_year_dom: "ids_of_year g y \<noteq> {} \<Longrightarrow> y \<in> fst ` set g"
  by (auto simp: ids_of_year_def split: option.splits dest: map_of_SomeD intro: rev_image_eqI)

text \<open>
  Claim C1. When every key of the store is a composite identifier the analysis can read,
  the gap analysis returns a mapping that has, for every year with at least one observed
  sequence number, the set of numbers from 1 to the largest observed one minus the
  observed ones, and has no entry for a year without observed numbers. Observed
  1, 2, 4, 5 gives the missing set 3; observed 1 to 5 gives the empty set.
\<close>

theorem analyze_missing_ids_gaps:
  assumes "\<forall>k\<in>set (map fst (all_events f)). readable_key k"
  shows "\<exists>m. analyze_missing_ids f = Inr m \<and> distinct (map fst m)
          \<and> (\<forall>year. map_of m year =
                (if observed f year = {} then None
                 else Some ({1..Max (observed f year)} - observed f year)))"
proof -
  from group_ids_readable [OF assms, of "[]"]
  obtain g where g: "group_ids (map fst (all_events f)) [] = Inr g"
    and ids: "\<forall>y. ids_of_year g y = ids_of_year [] y \<union> observed_in (map fst (all_events f)) y"
    by blast
  have ids': "ids_of_year g y = observed f y" for y
    using ids by (simp add: observed_eq ids_of_year_def)
  let ?m = "find_missing (sort (map fst g)) g []"
  have "analyze_missing_ids f = Inr ?m"
    by (simp add: analyze_missing_ids_def g)
  moreover have "distinct (map fst ?m)"
    by (rule find_missing_distinct) simp
  moreover have "map_of ?m year =
      (if observed f year = {} then None else Some ({1..Max (observed f year)} - observed f year))" for year
    using ids_of_year_dom [of g year]
    by (auto simp: find_missing_map_of ids')
  ultimately show ?thesis by blast
qed

lemma gap_store_observed:
  "observed ((new_fetcher 739252 739258)\<lparr>all_events := gap_store\<rparr>) ''2025'' = {1, 2, 4, 5}"
  "observed ((new_fetcher 739252 739258)\<lparr>all_events := gap_store\<rparr>) ''2026'' = {1, 2, 3, 4, 5}"
  "observed ((new_fetcher 739252 739258)\<lparr>all_events := gap_store\<rparr>) ''2024'' = {}"
  by code_simp+

lemma gap_store_readable:
  "\<forall>k\<in>set (map fst (all_events ((new_fetcher 739252 739258)\<lparr>all_events := gap_store\<rparr>))). readable_key k"
  by code_simp

lemma gap_store_analysis:
  "analyze_missing_ids ((new_fetcher 739252 739258)\<lparr>all_events := gap_store\<rparr>)
     = Inr [(''2025'', {3}), (''2026'', {})]"
  by code_simp

theorem analyze_missing_ids_gaps_witness:
  "\<exists>m. analyze_missing_ids ((new_fetcher 739252 739258)\<lparr>all_events := gap_store\<rparr>) = Inr m
      \<and> map_of m ''2025'' = Some {3}
      \<and> map_of m ''2026'' = Some {}
      \<and> map_of m ''2024'' = None"
proof -
  let ?f = "(new_fetcher 739252 739258)\<lparr>all_events := gap_store\<rparr>"
  from analyze_missing_ids_gaps [OF gap_store_readable]
  obtain m where m: "analyze_missing_ids ?f = Inr m"
    and gaps: "\<And>year. map_of m year =
                (if observed ?f year = {} then None
                 else Some ({1..Max (observed ?f year)} - observed ?f year))"
    by blast
  have a: "{1..Max {1, 2, 4, 5}} - {1, 2, 4, 5} = {3::int}"
    by auto
  have b: "{1..Max {1, 2, 3, 4, 5}} - {1, 2, 3, 4, 5} = ({}::int set)"
    by auto
  have "map_of m ''2025'' = Some {3}"
    unfolding gaps gap_store_observed using a by simp
  moreover have "map_of m ''2026'' = Some {}"
    unfolding gaps gap_store_observed using b by simp
  moreover have "map_of m ''2024'' = None"
    unfolding gaps gap_store_observed by simp
  ultimately show ?thesis using m by blast
qed

section \<open>One lookup of Phase 2\<close>

lemma fetch_by_id_effects:
  "effects (snd (fetch_by_id srv id_num year f)) = effects f @ [Get (IdReq (request_id year id_num))]"
  by (simp add: fetch_by_id_def client_get_def request_id_def Let_def split: response.splits)

lemma fetch_by_id_store:
  "all_events (snd (fetch_by_id srv id_num year f)) = all_events f"
  by (simp add: fetch_by_id_def client_get_def Let_def split: response.splits)

lemma fetch_by_id_result:
  "fst (fetch_by_id srv id_num year f) =
     (case srv (effects f) (IdReq (request_id year id_num)) of
        Ok events \<Rightarrow> (case events of [] \<Rightarrow> None | event # others \<Rightarrow> Some event)
      | HttpError code \<Rightarrow> None
      | Failure \<Rightarrow> None)"
  by (simp add: fetch_by_id_def client_get_def request_id_def Let_def split: response.splits list.splits)

lemma lookup_one_not_found:
  assumes "fst (fetch_by_id srv id_num year (fetcher_of st)) = None"
  shows "all_events (fetcher_of (lookup_one srv year st id_num)) = all_events (fetcher_of st)"
    and "fetched_count (lookup_one srv year st id_num) = fetched_count st"
    and "not_found_count (lookup_one srv year st id_num) = not_found_count st + 1"
  using assms fetch_by_id_store [of srv id_num year "fetcher_of st"]
  by (auto simp: lookup_one_def split: prod.splits option.splits)

lemma lookup_one_found:
  assumes "fst (fetch_by_id srv id_num year (fetcher_of st)) = Some event" and "event \<noteq> []"
  shows "all_events (fetcher_of (lookup_one srv year st id_num)) =
           dict_set (event_get event ''service_request_id'') event (all_events (fetcher_of st))"
    and "fetched_count (lookup_one srv year st id_num) = fetched_count st + 1"
    and "not_found_count (lookup_one srv year st id_num) = not_found_count st"
  using assms fetch_by_id_store [of srv id_num year "fetcher_of st"]
  by (auto simp: lookup_one_def Let_def split: prod.splits option.splits)

lemma lookup_one_effects:
  "effects (fetcher_of (lookup_one srv year st id_num)) =
     effects (fetcher_of st) @ [Get (IdReq (request_id year id_num))]"
  using fetch_by_id_effects [of srv id_num year "fetcher_of st"]
  by (auto simp: lookup_one_def Let_def split: prod.splits option.splits)

text \<open>
  Claim C3. For a point lookup of Phase 2 (one pass through the body of the lookup
  loop): when the service answers with status 404, or with an empty array, the lookup
  yields no record, the store is unchanged and the count of fetched records is
  unchanged; when it answers with one record (an object with at least one field), the
  record is merged into the store and the count of fetched records grows by one.
\<close>

theorem lookup_classification:
  "(srv (effects (fetcher_of st)) (IdReq (request_id year id_num)) = HttpError 404
      \<or> srv (effects (fetcher_of st)) (IdReq (request_id year id_num)) = Ok []
    \<longrightarrow> fst (fetch_by_id srv id_num year (fetcher_of st)) = None
        \<and> all_events (fetcher_of (lookup_one srv year st id_num)) = all_events (fetcher_of st)
        \<and> fetched_count (lookup_one srv year st id_num) = fetched_count st)
   \<and> (srv (effects (fetcher_of st)) (IdReq (request_id year id_num)) = Ok [event] \<and> event \<noteq> []
    \<longrightarrow> fst (fetch_by_id srv id_num year (fetcher_of st)) = Some event
        \<and> all_events (fetcher_of (lookup_one srv year st id_num)) =
            dict_set (event_get event ''service_request_id'') event (all_events (fetcher_of st))
        \<and> map_of (all_events (fetcher_of (lookup_one srv year st id_num)))
             (event_get event ''service_request_id'') = Some event
        \<and> fetched_count (lookup_one srv year st id_num) = fetched_count st + 1)"
proof (intro conjI impI)
  assume a: "srv (effects (fetcher_of st)) (IdReq (request_id year id_num)) = HttpError 404
      \<or> srv (effects (fetcher_of st)) (IdReq (request_id year id_num)) = Ok []"
  then have n: "fst (fetch_by_id srv id_num year (fetcher_of st)) = None"
    by (auto simp: fetch_by_id_result)
  show "fst (fetch_by_id srv id_num year (fetcher_of st)) = None" by (rule n)
  show "all_events (fetcher_of (lookup_one srv year st id_num)) = all_events (fetcher_of st)"
    by (rule lookup_one_not_found [OF n])
  show "fetched_count (lookup_one srv year st id_num) = fetched_count st"
    by (rule lookup_one_not_found [OF n])
next
  assume a: "srv (effects (fetcher_of st)) (IdReq (request_id year id_num)) = Ok [event] \<and> event \<noteq> []"
  then have s: "fst (fetch_by_id srv id_num year (fetcher_of st)) = Some event" and ne: "event \<noteq> []"
    by (auto simp: fetch_by_id_result)
  show "fst (fetch_by_id srv id_num year (fetcher_of st)) = Some event" by (rule s)
  show m: "all_events (fetcher_of (lookup_one srv year st id_num)) =
            dict_set (event_get event ''service_request_id'') event (all_events (fetcher_of st))"
    by (rule lookup_one_found [OF s ne])
  show "map_of (all_events (fetcher_of (lookup_one srv year st id_num)))
             (event_get event ''service_request_id'') = Some event"
    unfolding m by (simp add: dict_set_map_of)
  show "fetched_count (lookup_one srv year st id_num) = fetched_count st + 1"
    by (rule lookup_one_found [OF s ne])
qed

text \<open>
  Claim C10. When a lookup of Phase 2 is answered with a record, the record is stored
  under the value of its own \<^verbatim>\<open>service_request_id\<close> field (\<^verbatim>\<open>None\<close> when the field
  is absent), not under the identifier that was asked for. So when the requested
  identifier was absent from the store and the record's own identifier differs from it
  or is absent, the requested identifier is still absent after the merge.
\<close>

theorem lookup_merges_under_returned_id:
  assumes found: "srv (effects (fetcher_of st)) (IdReq (request_id year id_num)) = Ok (event # others)"
    and nonempty: "event \<noteq> []"
    and absent: "JStr (request_id year id_num) \<notin> fst ` set (all_events (fetcher_of st))"
    and differs: "event_get event ''service_request_id'' \<noteq> JStr (request_id year id_num)"
  shows "all_events (fetcher_of (lookup_one srv year st id_num)) =
           dict_set (event_get event ''service_request_id'') event (all_events (fetcher_of st))
       \<and> map_of (all_events (fetcher_of (lookup_one srv year st id_num)))
             (event_get event ''service_request_id'') = Some event
       \<and> JStr (request_id year id_num) \<notin> fst ` set (all_events (fetcher_of (lookup_one srv year st id_num)))"
proof -
  from found have s: "fst (fetch_by_id srv id_num year (fetcher_of st)) = Some event"
    by (simp add: fetch_by_id_result)
  have m: "all_events (fetcher_of (lookup_one srv year st id_num)) =
            dict_set (event_get event ''service_request_id'') event (all_events (fetcher_of st))"
    by (rule lookup_one_found [OF s nonempty])
  show ?thesis
    unfolding m using absent differs by (simp add: dict_set_map_of dict_set_keys)
qed

lemma fresh_state_simps:
  "effects (fetcher_of fresh_state) = []"
  "all_events (fetcher_of fresh_state) = []"
  "fetched_count fresh_state = 0"
  by (simp_all add: fresh_state_def new_fetcher_def)

lemma request_id_samples:
  "request_id ''2025'' 3 = ''3-2025''" "request_id ''2025'' 4 = ''4-2025''"
  by code_simp+

theorem lookup_classification_witness:
  "all_events (fetcher_of (lookup_one (scripted [HttpError 404]) ''2025'' fresh_state 3)) = []
   \<and> fetched_count (lookup_one (scripted [HttpError 404]) ''2025'' fresh_state 3) = 0
   \<and> all_events (fetcher_of (lookup_one (scripted [Ok []]) ''2025'' fresh_state 3)) = []
   \<and> fetched_count (lookup_one (scripted [Ok []]) ''2025'' fresh_state 3) = 0
   \<and> all_events (fetcher_of (lookup_one (scripted [Ok [sample_event]]) ''2025'' fresh_state 17))
       = [(JStr ''17-2025'', sample_event)]
   \<and> fetched_count (lookup_one (scripted [Ok [sample_event]]) ''2025'' fresh_state 17) = 1"
  using lookup_classification [of "scripted [HttpError 404]" fresh_state "''2025''" 3 sample_event]
    lookup_classification [of "scripted [Ok []]" fresh_state "''2025''" 3 sample_event]
    lookup_classification [of "scripted [Ok [sample_event]]" fresh_state "''2025''" 17 sample_event]
  by (simp add: fresh_state_simps scripted_def sample_event_id dict_set_def)
     (simp add: sample_event_def)

theorem lookup_merges_under_returned_id_witness:
  "all_events (fetcher_of (lookup_one (scripted [Ok [stray_event]]) ''2025'' fresh_state 3))
     = [(JStr ''99-2025'', stray_event)]
   \<and> JStr ''3-2025'' \<notin> fst ` set (all_events (fetcher_of (lookup_one (scripted [Ok [stray_event]]) ''2025'' fresh_state 3)))
   \<and> all_events (fetcher_of (lookup_one (scripted [Ok [anonymous_event]]) ''2025'' fresh_state 3))
     = [(JNull, anonymous_event)]"
proof -
  have a: "event_get stray_event ''service_request_id'' = JStr ''99-2025''"
    "event_get anonymous_event ''service_request_id'' = JNull"
    "stray_event \<noteq> []" "anonymous_event \<noteq> []"
    by (simp_all add: stray_event_def anonymous_event_def event_get_def)
  have "all_events (fetcher_of (lookup_one (scripted [Ok [stray_event]]) ''2025'' fresh_state 3))
     = dict_set (event_get stray_event ''service_request_id'') stray_event (all_events (fetcher_of fresh_state))
    \<and> map_of (all_events (fetcher_of (lookup_one (scripted [Ok [stray_event]]) ''2025'' fresh_state 3)))
             (event_get stray_event ''service_request_id'') = Some stray_event
    \<and> JStr (request_id ''2025'' 3) \<notin> fst ` set (all_events (fetcher_of (lookup_one (scripted [Ok [stray_event]]) ''2025'' fresh_state 3)))"
    by (rule lookup_merges_under_returned_id [where others = "[]"])
       (simp_all add: a fresh_state_simps scripted_def request_id_samples)
  moreover have "all_events (fetcher_of (lookup_one (scripted [Ok [anonymous_event]]) ''2025'' fresh_state 3))
     = dict_set (event_get anonymous_event ''service_request_id'') anonymous_event (all_events (fetcher_of fresh_state))
    \<and> map_of (all_events (fetcher_of (lookup_one (scripted [Ok [anonymous_event]]) ''2025'' fresh_state 3)))
             (event_get anonymous_event ''service_request_id'') = Some anonymous_event
    \<and> JStr (request_id ''2025'' 3) \<notin> fst ` set (all_events (fetcher_of (lookup_one (scripted [Ok [anonymous_event]]) ''2025'' fresh_state 3)))"
    by (rule lookup_merges_under_returned_id [where others = "[]"])
       (simp_all add: a fresh_state_simps scripted_def request_id_samples)
  ultimately show ?thesis
    by (simp add: a fresh_state_simps dict_set_def request_id_samples)
qed

section \<open>The lookups of Phase 2 in sequence\<close>

declare batches.simps [simp del]

lemma foldl_batches:
  "0 < n \<Longrightarrow> foldl (\<lambda>st batch. foldl f st batch) st (batches n xs) = foldl f st xs"
proof (induction n xs arbitrary: st rule: batches.induct)
  case (1 n xs)
  show ?case
  proof (cases "xs = []")
    case True
    then show ?thesis by (subst batches.simps) simp
  next
    case False
    have "foldl (\<lambda>st batch. foldl f st batch) st (batches n xs)
          = foldl (\<lambda>st batch. foldl f st batch) (foldl f st (take n xs)) (batches n (drop n xs))"
      using False "1.prems" by (subst batches.simps) simp
    also have "\<dots> = foldl f (foldl f st (take n xs)) (drop n xs)"
      using False "1.prems" by (intro "1.IH") simp_all
    also have "\<dots> = foldl f st (take n xs @ drop n xs)"
      by (simp only: foldl_append)
    finally show ?thesis by (simp only: append_take_drop_id)
  qed
qed

lemma lookup_year_fold:
  "lookup_year srv m st year = foldl (lookup_one srv year) st (sorted_list_of_set (ids_of_year m year))"
  by (simp add: lookup_year_def Let_def foldl_batches ids_of_year_def)

lemma lookup_fold_effects:
  "effects (fetcher_of (foldl (lookup_one srv year) st ids)) =
     effects (fetcher_of st) @ map (\<lambda>id_num. Get (IdReq (request_id year id_num))) ids"
  by (induction ids arbitrary: st) (simp_all add: lookup_one_effects)

lemma lookup_years_effects:
  "effects (fetcher_of (foldl (lookup_year srv m) st years)) =
     effects (fetcher_of st) @
     concat (map (\<lambda>year. map (\<lambda>id_num. Get (IdReq (request_id year id_num)))
                              (sorted_list_of_set (ids_of_year m year))) years)"
  by (induction years arbitrary: st) (simp_all add: lookup_year_fold lookup_fold_effects)

lemma lookup_order_gets:
  "map (\<lambda>(year, id_num). Get (IdReq (request_id year id_num))) (lookup_order m) =
     concat (map (\<lambda>year. map (\<lambda>id_num. Get (IdReq (request_id year id_num)))
                              (sorted_list_of_set (ids_of_year m year))) (sort (map fst m)))"
  by (simp add: lookup_order_def map_concat comp_def)

lemma nothing_missing:
  assumes fin: "\<forall>s\<in>snd ` set m. finite s"
    and zero: "sum_list (map (\<lambda>(year, ids). card ids) m) = 0"
  shows "lookup_order m = []"
proof -
  have "ids_of_year m year = {}" for year
  proof (cases "map_of m year")
    case None
    then show ?thesis by (simp add: ids_of_year_def)
  next
    case (Some s)
    then have in_m: "(year, s) \<in> set m" by (rule map_of_SomeD)
    with zero have "card s = 0" by (auto simp: sum_list_eq_0_iff)
    moreover from in_m fin have "finite s" by force
    ultimately show ?thesis using Some by (simp add: ids_of_year_def)
  qed
  then show ?thesis by (simp add: lookup_order_def)
qed

lemma phase2_effects:
  assumes "\<forall>s\<in>snd ` set m. finite s"
  shows "effects (phase2_id_based_fetch srv m f) =
           effects f @ map (\<lambda>(year, id_num). Get (IdReq (request_id year id_num))) (lookup_order m)"
proof (cases "sum_list (map (\<lambda>(year, ids). card ids) m) = 0")
  case True
  from nothing_missing [OF assms True] True show ?thesis
    by (simp add: phase2_id_based_fetch_def)
next
  case False
  let ?st = "foldl (lookup_year srv m)
               \<lparr>fetcher_of = f, fetched_count = 0, not_found_count = 0\<rparr> (sort (map fst m))"
  from False have "phase2_id_based_fetch srv m f = (fetcher_of ?st)\<lparr>id_fetch_count := fetched_count ?st\<rparr>"
    unfolding phase2_id_based_fetch_def Let_def by (simp only: if_False)
  then show ?thesis
    by (simp add: lookup_years_effects lookup_order_gets)
qed

text \<open>
  Claim C9, as amended. During Phase 2 the point lookups are sent one directly after the
  other, one per missing identifier, year by year and in ascending order of the sequence
  number; the process never pauses, so no delay separates two consecutive lookups.
\<close>

theorem phase2_lookups_back_to_back:
  assumes "\<forall>s\<in>snd ` set m. finite s"
  shows "effects (phase2_id_based_fetch srv m f) =
           effects f @ map (\<lambda>(year, id_num). Get (IdReq (request_id year id_num))) (lookup_order m)
       \<and> Sleep \<notin> set (effects (phase2_id_based_fetch srv m f)) - set (effects f)"
  unfolding phase2_effects [OF assms] by auto

lemma lookup_order_sample: "lookup_order [(''2025'', {3, 4})] = [(''2025'', 3), (''2025'', 4)]"
  by code_simp

theorem phase2_lookups_back_to_back_witness:
  "effects (phase2_id_based_fetch (scripted [Ok [sample_event], HttpError 404])
       [(''2025'', {3, 4})] (new_fetcher 739252 739258))
     = [Get (IdReq ''3-2025''), Get (IdReq ''4-2025'')]"
proof -
  have "\<forall>s\<in>snd ` set [(''2025'', {3, 4::int})]. finite s" by simp
  from phase2_lookups_back_to_back [OF this, of "scripted [Ok [sample_event], HttpError 404]" "new_fetcher 739252 739258"]
  show ?thesis
    by (simp add: lookup_order_sample request_id_samples new_fetcher_def)
qed

text \<open>
  Against claim C9 as stated (a delay between every two consecutive lookups): with the
  numbers 3 and 4 of 2025 missing, the effects of Phase 2 are the two requests and
  nothing between them.
\<close>

theorem phase2_no_delay_counterexample:
  "effects (phase2_id_based_fetch (scripted [HttpError 404, HttpError 404])
       [(''2025'', {3, 4})] (new_fetcher 739252 739258))
     = [Get (IdReq ''3-2025''), Get (IdReq ''4-2025'')]"
proof -
  have "\<forall>s\<in>snd ` set [(''2025'', {3, 4::int})]. finite s" by simp
  from phase2_effects [OF this, of "scripted [HttpError 404, HttpError 404]" "new_fetcher 739252 739258"]
  show ?thesis
    by (simp add: lookup_order_sample request_id_samples new_fetcher_def)
qed

section \<open>The order of the saved list\<close>

lemma has_timestamp_key:
  "is_JStr (sort_key_of e) \<Longrightarrow> has_timestamp e \<longleftrightarrow> timestamp e \<noteq> []"
  by (auto simp: has_timestamp_def timestamp_def sort_key_of_def event_get_def event_get_default_def
        is_JStr_def split: option.splits)

lemma descending_sorted:
  "sorted (rev (map key (rev (sort_key key xs))))"
  by (simp add: rev_map [symmetric])

lemma descending_nth:
  assumes "sorted (rev (map key out))" and "i \<le> j" and "j < length out"
  shows "key (out ! j) \<le> key (out ! i)"
proof -
  let ?n = "length out"
  have "rev (map key out) ! (?n - 1 - j) \<le> rev (map key out) ! (?n - 1 - i)"
    using assms by (intro sorted_nth_mono) auto
  then show ?thesis
    using assms by (simp add: rev_nth)
qed

text \<open>
  When every record of the store has a string as its timestamp or lacks the field, the
  list that \<^verbatim>\<open>save_to_file\<close> writes holds exactly the records of the store, is
  non-increasing in the timestamp, and every record whose timestamp is absent or empty
  comes after all records that have one.
\<close>

lemma save_to_file_descending:
  assumes "\<forall>e\<in>set (map snd (all_events f)). is_JStr (sort_key_of e)"
  shows "\<exists>out. save_to_file f = Inr out
      \<and> mset out = mset (map snd (all_events f))
      \<and> sorted (rev (map timestamp out))
      \<and> (\<forall>i j. i < length out \<and> j < length out
                \<and> has_timestamp (out ! i) \<and> \<not> has_timestamp (out ! j) \<longrightarrow> i < j)"
proof -
  let ?xs = "map snd (all_events f)"
  let ?out = "if length ?xs < 2 then ?xs else rev (sort_key timestamp (rev ?xs))"
  have all: "list_all (\<lambda>e. is_JStr (sort_key_of e)) ?xs"
    using assms by (simp add: list_all_iff)
  have s: "save_to_file f = Inr ?out"
    using all unfolding save_to_file_def Let_def timestamp_def by simp
  have m: "mset ?out = mset ?xs"
    by simp
  have d: "sorted (rev (map timestamp ?out))"
  proof (cases "length ?xs < 2")
    case True
    then have "length (rev (map timestamp ?xs)) \<le> 1" by simp
    then have "sorted (rev (map timestamp ?xs))"
      by (rule sorted01)
    with True show ?thesis by simp
  next
    case False
    then show ?thesis by (simp add: descending_sorted)
  qed
  have str: "is_JStr (sort_key_of e)" if "e \<in> set ?out" for e
  proof -
    from that have "e \<in># mset ?out" by simp
    then have "e \<in> set ?xs" unfolding m by simp
    with assms show ?thesis by blast
  qed
  have o: "i < j" if "i < length ?out" "j < length ?out"
      "has_timestamp (?out ! i)" "\<not> has_timestamp (?out ! j)" for i j
  proof (rule ccontr)
    assume "\<not> i < j"
    then have "j \<le> i" by simp
    from descending_nth [OF d this that(1)] have le: "timestamp (?out ! i) \<le> timestamp (?out ! j)" .
    have "timestamp (?out ! j) = []"
      using that(2,4) has_timestamp_key [OF str] nth_mem by blast
    moreover have "timestamp (?out ! i) \<noteq> []"
      using that(1,3) has_timestamp_key [OF str] nth_mem by blast
    ultimately show False using le by simp
  qed
  from s m d o show ?thesis by blast
qed

lemma dated_store_strings:
  "\<forall>e\<in>set (map snd (all_events ((new_fetcher 739252 739258)\<lparr>all_events := dated_store\<rparr>))).
      is_JStr (sort_key_of e)"
  by code_simp

lemma dated_store_saved:
  "save_to_file ((new_fetcher 739252 739258)\<lparr>all_events := dated_store\<rparr>) =
     Inr [[(''service_request_id'', JStr ''3-2025''),
           (''requested_datetime'', JStr ''2025-03-01T08:00:00+01:00'')],
          [(''service_request_id'', JStr ''1-2025''),
           (''requested_datetime'', JStr ''2025-01-01T08:00:00+01:00'')],
          [(''service_request_id'', JStr ''2-2025'')],
          [(''service_request_id'', JStr ''4-2025''), (''requested_datetime'', JStr [])]]"
  by code_simp

lemma save_to_file_descending_sample:
  "\<exists>out. save_to_file ((new_fetcher 739252 739258)\<lparr>all_events := dated_store\<rparr>) = Inr out
      \<and> map (\<lambda>e. event_get e ''service_request_id'') out
          = [JStr ''3-2025'', JStr ''1-2025'', JStr ''2-2025'', JStr ''4-2025'']
      \<and> sorted (rev (map timestamp out))"
proof -
  from save_to_file_descending [OF dated_store_strings]
  obtain out where "save_to_file ((new_fetcher 739252 739258)\<lparr>all_events := dated_store\<rparr>) = Inr out"
    and "sorted (rev (map timestamp out))"
    by blast
  then show ?thesis
    by (auto simp: dated_store_saved event_get_def)
qed

text \<open>
  Claim C6. The default \<^verbatim>\<open>""\<close> of the sort key covers a record that lacks the field
  \<^verbatim>\<open>requested_datetime\<close>, not one that carries it with the value \<^verbatim>\<open>null\<close>: such a
  record has no timestamp, its key is \<^verbatim>\<open>None\<close>, and comparing \<^verbatim>\<open>None\<close> with the
  string key of another record raises \<^verbatim>\<open>TypeError\<close>. For a store of two records, one
  with a timestamp and one whose timestamp is \<^verbatim>\<open>null\<close>, \<^verbatim>\<open>save_to_file\<close> therefore
  raises and writes no list at all, where the claim places the second record after the
  first.
\<close>

theorem save_to_file_null_timestamp:
  "map (has_timestamp \<circ> snd) null_dated_store = [True, False]
   \<and> save_to_file ((new_fetcher 739252 739258)\<lparr>all_events := null_dated_store\<rparr>) = Inl TypeError"
  by code_simp

section \<open>The store is built by merges alone\<close>

lemma store_events_merge_all: "store_events events st = merge_all (id_pairs events) st"
  by (induction events arbitrary: st) (simp_all add: merge_all_def id_pairs_def Let_def)

lemma id_pairs_append: "id_pairs (xs @ ys) = id_pairs xs @ id_pairs ys"
  by (simp add: id_pairs_def)

lemma merge_all_card:
  assumes "distinct (map fst st)"
  shows "length (merge_all kvs st) = card (fst ` set st \<union> fst ` set kvs)"
proof -
  have "length (merge_all kvs st) = length (map fst (merge_all kvs st))" by simp
  also have "\<dots> = card (set (map fst (merge_all kvs st)))"
    using merge_all_distinct [OF assms, of kvs] by (simp only: distinct_card)
  also have "\<dots> = card (fst ` set st \<union> fst ` set kvs)"
    by (simp add: merge_all_keys Un_commute)
  finally show ?thesis .
qed

lemma fetch_pages_any_store:
  assumes a: "fetch_pages srv s e p acc f = Some r"
  shows "fetch_pages srv s e p acc (f\<lparr>all_events := S\<rparr>) = Some (fst r, (snd r)\<lparr>all_events := S\<rparr>)"
proof (rule fetch_pages.raw_induct
    [where P = "\<lambda>srv s e p acc f r.
        fetch_pages srv s e p acc (f\<lparr>all_events := S\<rparr>) = Some (fst r, (snd r)\<lparr>all_events := S\<rparr>)",
     OF _ a])
  fix rec :: "server \<Rightarrow> date \<Rightarrow> date \<Rightarrow> nat \<Rightarrow> event list \<Rightarrow> fetcher \<Rightarrow> (event list \<times> fetcher) option"
  fix srv start end_d page events f r
  assume IH: "\<And>srv start end_d page events f r.
      rec srv start end_d page events f = Some r \<Longrightarrow>
      fetch_pages srv start end_d page events (f\<lparr>all_events := S\<rparr>) = Some (fst r, (snd r)\<lparr>all_events := S\<rparr>)"
  assume body: "(case client_get srv (PageReq start end_d page) f of
        (Ok page_events, f1) \<Rightarrow>
          if page_events = [] then Some (events, f1)
          else if length page_events < 100 then Some (events @ page_events, f1)
          else rec srv start end_d (page + 1) (events @ page_events) f1
      | (HttpError code, f1) \<Rightarrow> Some (events, f1\<lparr>console := console f1 @ [ErrorOnPage page]\<rparr>)
      | (Failure, f1) \<Rightarrow> Some (events, f1\<lparr>console := console f1 @ [ErrorOnPage page]\<rparr>)) = Some r"
  show "fetch_pages srv start end_d page events (f\<lparr>all_events := S\<rparr>) = Some (fst r, (snd r)\<lparr>all_events := S\<rparr>)"
  proof (cases "srv (effects f) (PageReq start end_d page)")
    case (Ok page_events)
    show ?thesis
    proof (cases "page_events = [] \<or> length page_events < 100")
      case True
      with body Ok show ?thesis
        by (subst fetch_pages.simps) (auto simp: client_get_def split: if_splits)
    next
      case False
      with body Ok have "rec srv start end_d (page + 1) (events @ page_events)
                           (f\<lparr>effects := effects f @ [Get (PageReq start end_d page)]\<rparr>) = Some r"
        by (simp add: client_get_def)
      from IH [OF this]
      have step: "fetch_pages srv start end_d (page + 1) (events @ page_events)
              (f\<lparr>effects := effects f @ [Get (PageReq start end_d page)], all_events := S\<rparr>)
            = Some (fst r, (snd r)\<lparr>all_events := S\<rparr>)" .
      have sw: "f\<lparr>all_events := S, effects := effects f @ [Get (PageReq start end_d page)]\<rparr>
              = f\<lparr>effects := effects f @ [Get (PageReq start end_d page)], all_events := S\<rparr>"
        by (rule fetcher.equality) simp_all
      have "fetch_pages srv start end_d page events (f\<lparr>all_events := S\<rparr>)
            = fetch_pages srv start end_d (page + 1) (events @ page_events)
                (f\<lparr>all_events := S, effects := effects f @ [Get (PageReq start end_d page)]\<rparr>)"
        using False Ok by (subst fetch_pages.simps) (simp add: client_get_def)
      then show ?thesis
        by (simp only: sw step)
    qed
  next
    case (HttpError code)
    with body show ?thesis
      by (subst fetch_pages.simps) (auto simp: client_get_def)
  next
    case Failure
    with body show ?thesis
      by (subst fetch_pages.simps) (auto simp: client_get_def)
  qed
qed

lemma fetch_pages_store_snd:
  assumes a: "fetch_pages srv s e p acc f = Some r"
  shows "all_events (snd r) = all_events f"
proof -
  from fetch_pages_any_store [OF a, of "all_events f"] a
  have "Some (fst r, (snd r)\<lparr>all_events := all_events f\<rparr>) = Some r"
    by simp
  then have "(snd r)\<lparr>all_events := all_events f\<rparr> = snd r"
    by (cases r) simp
  then have "all_events ((snd r)\<lparr>all_events := all_events f\<rparr>) = all_events (snd r)"
    by simp
  then show ?thesis by simp
qed

lemma fetch_windows_sweep:
  "fetch_windows srv windows f = Some f1 \<Longrightarrow>
   \<exists>evs. sweep_events srv windows (f\<lparr>all_events := S\<rparr>) = Some evs
        \<and> all_events f1 = merge_all (id_pairs evs) (all_events f)"
proof (induction windows arbitrary: f S)
  case Nil
  then show ?case by (simp add: id_pairs_def merge_all_def)
next
  case (Cons w windows)
  obtain s e where w: "w = (s, e)" by (cases w)
  from Cons.prems w obtain events f2 where
    fetched: "fetch_by_date_range srv s e f = Some (events, f2)"
    and rest: "fetch_windows srv windows (f2\<lparr>all_events := store_events events (all_events f2)\<rparr>) = Some f1"
    by (auto split: option.splits)
  from fetched have same: "all_events f2 = all_events f"
    using fetch_pages_store_snd [of srv s e 1 "[]" f "(events, f2)"]
    by (simp add: fetch_by_date_range_def)
  from fetched have moved: "fetch_by_date_range srv s e (f\<lparr>all_events := S\<rparr>) = Some (events, f2\<lparr>all_events := S\<rparr>)"
    using fetch_pages_any_store [of srv s e 1 "[]" f "(events, f2)" S]
    by (simp add: fetch_by_date_range_def)
  from Cons.IH [OF rest, of S] obtain later where
    later: "sweep_events srv windows (f2\<lparr>all_events := S\<rparr>) = Some later"
    and st: "all_events f1 = merge_all (id_pairs later) (store_events events (all_events f))"
    by (auto simp: same)
  have "sweep_events srv (w # windows) (f\<lparr>all_events := S\<rparr>) = Some (events @ later)"
    by (simp add: w moved later)
  moreover have "all_events f1 = merge_all (id_pairs (events @ later)) (all_events f)"
    by (simp add: st store_events_merge_all id_pairs_append merge_all_append)
  ultimately show ?case by blast
qed

lemma fetch_by_id_any_store:
  "fetch_by_id srv id_num year (f\<lparr>all_events := S\<rparr>) =
     (fst (fetch_by_id srv id_num year f), (snd (fetch_by_id srv id_num year f))\<lparr>all_events := S\<rparr>)"
  by (simp add: fetch_by_id_def client_get_def Let_def split: response.splits)

lemma lookups_found_any_store:
  "lookups_found srv order (f\<lparr>all_events := S\<rparr>) = lookups_found srv order f"
proof (induction order arbitrary: f S)
  case Nil
  show ?case by simp
next
  case (Cons x order)
  obtain y i where x: "x = (y, i)" by (cases x)
  obtain r f1 where r: "fetch_by_id srv i y f = (r, f1)" by (cases "fetch_by_id srv i y f")
  show ?case
    by (simp add: x fetch_by_id_any_store r Cons.IH)
qed

lemma lookup_one_store:
  "all_events (fetcher_of (lookup_one srv year ls id_num)) =
     merge_all (found_pair (fst (fetch_by_id srv id_num year (fetcher_of ls)))) (all_events (fetcher_of ls))"
  using fetch_by_id_store [of srv id_num year "fetcher_of ls"]
  by (auto simp: lookup_one_def found_pair_def merge_all_def Let_def split: prod.splits option.splits)

lemma lookup_one_fetcher:
  "fetcher_of (lookup_one srv year ls id_num) =
     (snd (fetch_by_id srv id_num year (fetcher_of ls)))
       \<lparr>all_events := all_events (fetcher_of (lookup_one srv year ls id_num))\<rparr>"
  by (auto simp: lookup_one_def Let_def split: prod.splits option.splits)

lemma lookups_fold_store:
  "all_events (fetcher_of (foldl (\<lambda>ls (year, id_num). lookup_one srv year ls id_num) ls order)) =
     merge_all (lookups_found srv order (fetcher_of ls)) (all_events (fetcher_of ls))"
proof (induction order arbitrary: ls)
  case Nil
  show ?case by (simp add: merge_all_def)
next
  case (Cons x order)
  obtain y i where x: "x = (y, i)" by (cases x)
  obtain r f1 where r: "fetch_by_id srv i y (fetcher_of ls) = (r, f1)"
    by (cases "fetch_by_id srv i y (fetcher_of ls)")
  let ?ls1 = "lookup_one srv y ls i"
  have f1: "fetcher_of ?ls1 = f1\<lparr>all_events := all_events (fetcher_of ?ls1)\<rparr>"
    using lookup_one_fetcher [of srv y ls i] by (simp add: r)
  have "lookups_found srv order (fetcher_of ?ls1) = lookups_found srv order f1"
    by (subst f1) (rule lookups_found_any_store)
  moreover have "all_events (fetcher_of ?ls1) = merge_all (found_pair r) (all_events (fetcher_of ls))"
    using lookup_one_store [of srv y ls i] by (simp add: r)
  ultimately show ?case
    by (simp add: x Cons.IH r merge_all_append)
qed

lemma lookup_pairs_fold:
  "foldl (\<lambda>ls (year, id_num). lookup_one srv year ls id_num) ls (map (Pair y) ids)
     = foldl (lookup_one srv y) ls ids"
  by (induction ids arbitrary: ls) simp_all

lemma lookup_order_fold:
  "foldl (lookup_year srv m) ls years =
     foldl (\<lambda>ls (year, id_num). lookup_one srv year ls id_num) ls
       (concat (map (\<lambda>year. map (Pair year) (sorted_list_of_set (ids_of_year m year))) years))"
proof (induction years arbitrary: ls)
  case Nil
  show ?case by simp
next
  case (Cons y years)
  let ?step = "\<lambda>ls (year, id_num). lookup_one srv year ls id_num"
  let ?ids = "\<lambda>year. map (Pair year) (sorted_list_of_set (ids_of_year m year))"
  have "foldl (lookup_year srv m) ls (y # years) = foldl (lookup_year srv m) (lookup_year srv m ls y) years"
    by simp
  also have "\<dots> = foldl ?step (lookup_year srv m ls y) (concat (map ?ids years))"
    by (rule Cons.IH)
  also have "lookup_year srv m ls y = foldl ?step ls (?ids y)"
    by (simp only: lookup_year_fold lookup_pairs_fold)
  also have "foldl ?step (foldl ?step ls (?ids y)) (concat (map ?ids years))
             = foldl ?step ls (concat (map ?ids (y # years)))"
    by (simp only: list.map concat.simps foldl_append)
  finally show ?case .
qed

lemma phase2_store:
  assumes "\<forall>s\<in>snd ` set m. finite s"
  shows "all_events (phase2_id_based_fetch srv m f) =
           merge_all (lookups_found srv (lookup_order m) f) (all_events f)"
proof (cases "sum_list (map (\<lambda>(year, ids). card ids) m) = 0")
  case True
  from nothing_missing [OF assms True] True show ?thesis
    by (simp add: phase2_id_based_fetch_def merge_all_def)
next
  case False
  let ?init = "\<lparr>fetcher_of = f, fetched_count = 0, not_found_count = 0\<rparr>"
  let ?ls = "foldl (lookup_year srv m) ?init (sort (map fst m))"
  from False have "phase2_id_based_fetch srv m f = (fetcher_of ?ls)\<lparr>id_fetch_count := fetched_count ?ls\<rparr>"
    unfolding phase2_id_based_fetch_def Let_def by (simp only: if_False)
  then have "all_events (phase2_id_based_fetch srv m f) = all_events (fetcher_of ?ls)"
    by simp
  also have "\<dots> = merge_all (lookups_found srv (lookup_order m) (fetcher_of ?init)) (all_events (fetcher_of ?init))"
    unfolding lookup_order_fold lookup_order_def by (rule lookups_fold_store)
  finally show ?thesis by simp
qed

lemma phase1_store:
  assumes "phase1_date_based_fetch srv f = Some (Inr f1)"
  shows "\<exists>windows evs. plan_windows (start_date f) (end_date f) [] = Inr windows
           \<and> sweep_events srv windows f = Some evs
           \<and> all_events f1 = merge_all (id_pairs evs) (all_events f)"
proof -
  from assms obtain windows f0 where
    plan: "plan_windows (start_date f) (end_date f) [] = Inr windows"
    and run: "fetch_windows srv windows f = Some f0"
    and f1: "f1 = f0\<lparr>date_fetch_count := length (all_events f0)\<rparr>"
    by (auto simp: phase1_date_based_fetch_def split: sum.splits option.splits)
  from fetch_windows_sweep [OF run, of "all_events f"] obtain evs where
    "sweep_events srv windows f = Some evs" "all_events f0 = merge_all (id_pairs evs) (all_events f)"
    by auto
  with plan f1 show ?thesis by auto
qed

text \<open>
  Claim C4. Every change either phase makes to the store is a dictionary assignment, and
  the store after a run is the result of exactly the assignments for the records the
  service returned, in the order it returned them. A run of assignments keeps one record
  per identifier, leaves under each identifier the record assigned to it last, and gives
  a store with as many records as there are distinct identifiers in it and among the
  assignments. Storing a window's events makes the assignments for its events with a
  truthy identifier; a lookup of Phase 2 makes the assignment for the record it found.
  For a session that starts with an empty store: after Phase 1 the store is the result of
  the assignments for the events of the sweep, after Phase 2 that of these followed by
  the assignments of the lookups; its identifiers are distinct, the record under each is
  the last one merged under it, and its length is the number of distinct identifiers
  merged.
\<close>

theorem store_dedup_last_write_wins:
  "(distinct (map fst st) \<longrightarrow>
        distinct (map fst (merge_all kvs st))
      \<and> map_of (merge_all kvs st) = map_of st ++ map_of (rev kvs)
      \<and> length (merge_all kvs st) = card (fst ` set st \<union> fst ` set kvs))
   \<and> store_events events st = merge_all (id_pairs events) st
   \<and> all_events (fetcher_of (lookup_one srv year ls id_num)) =
       merge_all (found_pair (fst (fetch_by_id srv id_num year (fetcher_of ls))))
         (all_events (fetcher_of ls))
   \<and> (phase1_date_based_fetch srv (new_fetcher s e) = Some (Inr f1)
        \<and> (\<forall>ids\<in>snd ` set missing. finite ids) \<longrightarrow>
        (\<exists>windows evs.
            plan_windows s e [] = Inr windows
          \<and> sweep_events srv windows (new_fetcher s e) = Some evs
          \<and> all_events f1 = merge_all (id_pairs evs) []
          \<and> all_events (phase2_id_based_fetch srv missing f1)
              = merge_all (id_pairs evs @ lookups_found srv (lookup_order missing) f1) []
          \<and> distinct (map fst (all_events (phase2_id_based_fetch srv missing f1)))
          \<and> map_of (all_events (phase2_id_based_fetch srv missing f1))
              = map_of (rev (id_pairs evs @ lookups_found srv (lookup_order missing) f1))
          \<and> length (all_events (phase2_id_based_fetch srv missing f1))
              = card (fst ` set (id_pairs evs @ lookups_found srv (lookup_order missing) f1))))"
proof (intro conjI impI)
  assume d: "distinct (map fst st)"
  show "distinct (map fst (merge_all kvs st))"
    by (rule merge_all_distinct [OF d])
  show "map_of (merge_all kvs st) = map_of st ++ map_of (rev kvs)"
    by (rule merge_all_map_of)
  show "length (merge_all kvs st) = card (fst ` set st \<union> fst ` set kvs)"
    by (rule merge_all_card [OF d])
next
  show "store_events events st = merge_all (id_pairs events) st"
    by (rule store_events_merge_all)
next
  show "all_events (fetcher_of (lookup_one srv year ls id_num)) =
       merge_all (found_pair (fst (fetch_by_id srv id_num year (fetcher_of ls))))
         (all_events (fetcher_of ls))"
    by (rule lookup_one_store)
next
  assume a: "phase1_date_based_fetch srv (new_fetcher s e) = Some (Inr f1)
        \<and> (\<forall>ids\<in>snd ` set missing. finite ids)"
  let ?f = "new_fetcher s e"
  let ?found = "lookups_found srv (lookup_order missing) f1"
  let ?final = "all_events (phase2_id_based_fetch srv missing f1)"
  from a have run: "phase1_date_based_fetch srv ?f = Some (Inr f1)"
    and fin: "\<forall>ids\<in>snd ` set missing. finite ids"
    by simp_all
  have new: "start_date ?f = s" "end_date ?f = e" "all_events ?f = []"
    by (simp_all add: new_fetcher_def)
  from phase1_store [OF run] obtain windows evs where
    plan: "plan_windows s e [] = Inr windows"
    and sweep: "sweep_events srv windows ?f = Some evs"
    and p1: "all_events f1 = merge_all (id_pairs evs) []"
    by (auto simp: new)
  have p2: "?final = merge_all (id_pairs evs @ ?found) []"
    by (simp add: phase2_store [OF fin] p1 merge_all_append)
  have "distinct (map fst ?final)"
    unfolding p2 by (rule merge_all_distinct) simp
  moreover have "map_of ?final = map_of (rev (id_pairs evs @ ?found))"
    unfolding p2 by (simp add: merge_all_map_of)
  moreover have "length ?final = card (fst ` set (id_pairs evs @ ?found))"
    unfolding p2 by (rule merge_all_length)
  ultimately show "\<exists>windows evs.
            plan_windows s e [] = Inr windows
          \<and> sweep_events srv windows (new_fetcher s e) = Some evs
          \<and> all_events f1 = merge_all (id_pairs evs) []
          \<and> all_events (phase2_id_based_fetch srv missing f1)
              = merge_all (id_pairs evs @ lookups_found srv (lookup_order missing) f1) []
          \<and> distinct (map fst (all_events (phase2_id_based_fetch srv missing f1)))
          \<and> map_of (all_events (phase2_id_based_fetch srv missing f1))
              = map_of (rev (id_pairs evs @ lookups_found srv (lookup_order missing) f1))
          \<and> length (all_events (phase2_id_based_fetch srv missing f1))
              = card (fst ` set (id_pairs evs @ lookups_found srv (lookup_order missing) f1))"
    using plan sweep p1 p2 by blast
qed

theorem store_dedup_last_write_wins_witness:
  "phase1_date_based_fetch (scripted [Ok [sample_event, stray_event], Ok [revised_event]])
       (new_fetcher 739252 739258)
     = Some (Inr ((new_fetcher 739252 739258)
          \<lparr>all_events := [(JStr ''17-2025'', sample_event), (JStr ''99-2025'', stray_event)],
            date_fetch_count := 2,
            effects := [Get (PageReq 739252 739258 1)]\<rparr>))
   \<and> sweep_events (scripted [Ok [sample_event, stray_event], Ok [revised_event]])
        [(739252, 739258)] (new_fetcher 739252 739258)
     = Some [sample_event, stray_event]
   \<and> lookups_found (scripted [Ok [sample_event, stray_event], Ok [revised_event]])
        (lookup_order [(''2025'', {3})])
        ((new_fetcher 739252 739258)
          \<lparr>all_events := [(JStr ''17-2025'', sample_event), (JStr ''99-2025'', stray_event)],
            date_fetch_count := 2,
            effects := [Get (PageReq 739252 739258 1)]\<rparr>)
     = [(JStr ''17-2025'', revised_event)]
   \<and> all_events (phase2_id_based_fetch (scripted [Ok [sample_event, stray_event], Ok [revised_event]])
        [(''2025'', {3})]
        ((new_fetcher 739252 739258)
          \<lparr>all_events := [(JStr ''17-2025'', sample_event), (JStr ''99-2025'', stray_event)],
            date_fetch_count := 2,
            effects := [Get (PageReq 739252 739258 1)]\<rparr>))
     = [(JStr ''17-2025'', revised_event), (JStr ''99-2025'', stray_event)]
   \<and> store_events [sample_event, stray_event, anonymous_event, revised_event] []
     = [(JStr ''17-2025'', revised_event), (JStr ''99-2025'', stray_event)]"
proof -
  let ?srv = "scripted [Ok [sample_event, stray_event], Ok [revised_event]]"
  let ?f = "new_fetcher 739252 739258"
  let ?f1 = "?f\<lparr>all_events := [(JStr ''17-2025'', sample_event), (JStr ''99-2025'', stray_event)],
                 date_fetch_count := 2,
                 effects := [Get (PageReq 739252 739258 1)]\<rparr>"
  let ?missing = "[(''2025'', {3::int})]"
  have ids: "event_get sample_event ''service_request_id'' = JStr ''17-2025''"
    "event_get stray_event ''service_request_id'' = JStr ''99-2025''"
    "event_get revised_event ''service_request_id'' = JStr ''17-2025''"
    "event_get anonymous_event ''service_request_id'' = JNull"
    by (simp_all add: sample_event_def stray_event_def revised_event_def anonymous_event_def
        event_get_def)
  have plan: "plan_windows 739252 739258 [] = Inr [(739252, 739258)]"
    by (simp add: plan_windows.simps date_add_def date_max_def date_min_def valid_date_def)
  have page: "fetch_by_date_range ?srv 739252 739258 ?f
      = Some ([sample_event, stray_event], ?f\<lparr>effects := [Get (PageReq 739252 739258 1)]\<rparr>)"
    unfolding fetch_by_date_range_def
    by (subst fetch_pages.simps)
       (simp add: client_get_def scripted_def new_fetcher_def sample_event_def)
  have pairs: "id_pairs [sample_event, stray_event]
      = [(JStr ''17-2025'', sample_event), (JStr ''99-2025'', stray_event)]"
    by (simp add: id_pairs_def ids)
  have stored: "store_events [sample_event, stray_event] []
      = [(JStr ''17-2025'', sample_event), (JStr ''99-2025'', stray_event)]"
    by (simp add: ids dict_set_def)
  have new: "start_date ?f = 739252" "end_date ?f = 739258" "all_events ?f = []"
    by (simp_all add: new_fetcher_def)
  have windows: "fetch_windows ?srv [(739252, 739258)] ?f
      = Some (?f\<lparr>effects := [Get (PageReq 739252 739258 1)],
                 all_events := [(JStr ''17-2025'', sample_event), (JStr ''99-2025'', stray_event)]\<rparr>)"
    by (simp add: page new ids dict_set_def del: One_nat_def)
  have run: "phase1_date_based_fetch ?srv ?f = Some (Inr ?f1)"
    unfolding phase1_date_based_fetch_def
    by (simp only: new plan windows sum.case option.case) (simp add: new_fetcher_def)
  have sweep: "sweep_events ?srv [(739252, 739258)] ?f = Some [sample_event, stray_event]"
    by (simp add: page)
  have order: "lookup_order ?missing = [(''2025'', 3)]"
    by (simp add: lookup_order_def ids_of_year_def)
  have found: "lookups_found ?srv [(''2025'', 3)] ?f1 = [(JStr ''17-2025'', revised_event)]"
    by (simp add: fetch_by_id_def client_get_def scripted_def new_fetcher_def found_pair_def ids)
       (simp add: revised_event_def)
  have fin: "\<forall>ids\<in>snd ` set ?missing. finite ids"
    by simp
  have merged: "merge_all ([(JStr ''17-2025'', sample_event), (JStr ''99-2025'', stray_event)]
                            @ [(JStr ''17-2025'', revised_event)]) []
      = [(JStr ''17-2025'', revised_event), (JStr ''99-2025'', stray_event)]"
    by (simp add: merge_all_def dict_set_def)
  have direct: "merge_all (id_pairs [sample_event, stray_event, anonymous_event, revised_event]) []
      = [(JStr ''17-2025'', revised_event), (JStr ''99-2025'', stray_event)]"
    by (simp add: id_pairs_def ids merge_all_def dict_set_def)
  from store_dedup_last_write_wins
         [of "[]" "[]" "[sample_event, stray_event, anonymous_event, revised_event]"
             ?srv "''2025''" fresh_state 3 739252 739258 ?f1 ?missing]
  have step: "store_events [sample_event, stray_event, anonymous_event, revised_event] []
        = merge_all (id_pairs [sample_event, stray_event, anonymous_event, revised_event]) []"
    and whole: "\<exists>windows evs.
            plan_windows 739252 739258 [] = Inr windows
          \<and> sweep_events ?srv windows ?f = Some evs
          \<and> all_events (phase2_id_based_fetch ?srv ?missing ?f1)
              = merge_all (id_pairs evs @ lookups_found ?srv (lookup_order ?missing) ?f1) []"
    using run fin by blast+
  from whole obtain windows evs where
    w: "plan_windows 739252 739258 [] = Inr windows"
    and s: "sweep_events ?srv windows ?f = Some evs"
    and m: "all_events (phase2_id_based_fetch ?srv ?missing ?f1)
              = merge_all (id_pairs evs @ lookups_found ?srv (lookup_order ?missing) ?f1) []"
    by blast
  from w have "windows = [(739252, 739258)]"
    by (simp only: plan sum.inject)
  with s have "evs = [sample_event, stray_event]"
    by (simp only: sweep option.inject)
  with m have final: "all_events (phase2_id_based_fetch ?srv ?missing ?f1)
      = [(JStr ''17-2025'', revised_event), (JStr ''99-2025'', stray_event)]"
    by (simp only: order found pairs merged)
  show ?thesis
    using run sweep found final step direct by (simp only: order simp_thms)
qed

end
